theory Spec2Isabelle
  imports
    Main
    "HOL-Library.Word"
    "HOL-Library.List_Lexorder"
    "HOL-Library.Char_ord"
    "HOL-Library.AList"
    "HOL-Library.Multiset"
begin

unbundle bit_operations_syntax

section \<open>Content addresses and the hash primitive\<close>

text \<open>
  \<^verbatim>\<open>type contentAddress [sha1.Size]byte\<close>: a content address is an array of bytes.
  \<^verbatim>\<open>NodeHash\<close>, \<^verbatim>\<open>ComponentID\<close>, \<^verbatim>\<open>ComponentHash\<close> and \<^verbatim>\<open>ForestHash\<close> are named
  copies of it.  The order used everywhere for sorting is \<^verbatim>\<open>bytes.Compare(a, b) < 0\<close>,
  the lexicographic order on unsigned bytes, which is the order on \<open>byte list\<close>.
\<close>

type_synonym byte = "8 word"
type_synonym contentAddress = "byte list"
type_synonym NodeHash = contentAddress
type_synonym ComponentID = contentAddress
type_synonym ComponentHash = contentAddress
type_synonym ForestHash = contentAddress

definition zeroAddress :: contentAddress where
  "zeroAddress = replicate 20 0"

fun bytes_Compare :: "byte list \<Rightarrow> byte list \<Rightarrow> int" where
  "bytes_Compare [] [] = 0"
| "bytes_Compare [] (y # ys) = - 1"
| "bytes_Compare (x # xs) [] = 1"
| "bytes_Compare (x # xs) (y # ys) =
     (if x < y then - 1 else if y < x then 1 else bytes_Compare xs ys)"

text \<open>
  \<^verbatim>\<open>h := sha1.New(); h.Write(p); ...; h.Sum(nil)\<close>.  The digest function itself lives in
  the standard library; it is the parameter \<open>H\<close> of everything below.  A running hash is
  the sequence of bytes written to it so far.
\<close>

type_synonym hash_state = "byte list"
type_synonym digest = "byte list \<Rightarrow> contentAddress"

definition New :: hash_state where
  "New = []"

definition Write :: "hash_state \<Rightarrow> byte list \<Rightarrow> hash_state" where
  "Write h p = h @ p"

definition Sum :: "digest \<Rightarrow> hash_state \<Rightarrow> contentAddress" where
  "Sum H h = H h"

section \<open>Errors and panics\<close>

text \<open>
  Errors are values.  \<open>Errorf\<close> is an error made from a message, \<open>Wrapped\<close> is
  \<^verbatim>\<open>fmt.Errorf("...: %w", err)\<close>, \<open>Backend\<close> is an error handed up by the database
  driver or the node registry, \<open>InconsistentGraph\<close> is the error built by
  \<^verbatim>\<open>newGraphIntegrityError\<close> from the relationship, the number of affected edges and the
  direction.  A call either returns or panics with a message or an error.
\<close>

datatype error =
    errFoundRootlessAssemblies
  | Errorf string
  | Backend string
  | Wrapped string error
  | InconsistentGraph string int string

datatype panic = PanicMsg string | PanicErr error

datatype 'a outcome = Return 'a | Panic panic

section \<open>Go maps\<close>

text \<open>
  A Go map is kept as the list of its entries, keys pairwise distinct, in the order in
  which a \<^verbatim>\<open>range\<close> statement happens to visit them.  The order is unspecified in Go,
  so every statement below is made for an arbitrary such list.
\<close>

type_synonym ('k, 'v) gomap = "('k \<times> 'v) list"

definition wf_map :: "('k, 'v) gomap \<Rightarrow> bool" where
  "wf_map m = distinct (map fst m)"

text \<open>\<^verbatim>\<open>v, ok := m[k]\<close>\<close>
definition lookup :: "('k, 'v) gomap \<Rightarrow> 'k \<Rightarrow> 'v option" where
  "lookup m k = map_of m k"

text \<open>\<^verbatim>\<open>m[k]\<close> of a map of content addresses: the zero array when the key is absent.\<close>
definition index_ca :: "('k, contentAddress) gomap \<Rightarrow> 'k \<Rightarrow> contentAddress" where
  "index_ca m k = (case lookup m k of Some v \<Rightarrow> v | None \<Rightarrow> zeroAddress)"

text \<open>\<^verbatim>\<open>m[k] = v\<close> and \<^verbatim>\<open>delete(m, k)\<close>\<close>
definition store :: "'k \<Rightarrow> 'v \<Rightarrow> ('k, 'v) gomap \<Rightarrow> ('k, 'v) gomap" where
  "store k v m = AList.update k v m"

definition delete_key :: "'k \<Rightarrow> ('k, 'v) gomap \<Rightarrow> ('k, 'v) gomap" where
  "delete_key k m = AList.delete k m"

section \<open>Forest hash\<close>

type_synonym snapshot = "(ComponentID, ComponentHash) gomap"

text \<open>
  \<^verbatim>\<open>func HashComponents(components map[ComponentID]ComponentHash) ForestHash\<close>:
  collect the keys, sort them with \<^verbatim>\<open>sort.Slice\<close> under \<^verbatim>\<open>bytes.Compare < 0\<close>, write
  the hash stored under each key in that order, return the sum.
\<close>
definition HashComponents :: "digest \<Rightarrow> snapshot \<Rightarrow> ForestHash" where
  "HashComponents H components =
     (let refs = fold (\<lambda>(ref, _) refs. refs @ [ref]) components [];
          refs = sort refs;
          h = fold (\<lambda>ref h. Write h (index_ca components ref)) refs New
      in Sum H h)"

text \<open>\<^verbatim>\<open>func (s snapshot) GraphHash() ForestHash\<close>\<close>
definition GraphHash :: "digest \<Rightarrow> snapshot \<Rightarrow> ForestHash" where
  "GraphHash H s = HashComponents H s"

text \<open>
  The forest hash as the specification words it, over the mapping itself: sort the
  component ids, concatenate the corresponding component hashes, hash the result.
\<close>
definition ForestHash_spec :: "digest \<Rightarrow> (ComponentID \<rightharpoonup> ComponentHash) \<Rightarrow> ForestHash" where
  "ForestHash_spec H m = H (concat (map (\<lambda>k. the (m k)) (sorted_list_of_set (dom m))))"

section \<open>Snapshot differences\<close>

text \<open>
  \<^verbatim>\<open>func (s snapshot) PartialDiff(partial snapshot, dirtyRoots []ComponentID)\<close>.
  The first loop ranges over the partial snapshot, the second over the dirty roots.
\<close>
fun PartialDiff_partial ::
  "snapshot \<Rightarrow> (ComponentID \<times> ComponentHash) list \<Rightarrow> ComponentID list \<times> ComponentID list
     \<Rightarrow> ComponentID list \<times> ComponentID list" where
  "PartialDiff_partial s [] (created, updated) = (created, updated)"
| "PartialDiff_partial s ((cid, newHash) # rest) (created, updated) =
     (case lookup s cid of
        None \<Rightarrow> PartialDiff_partial s rest (created @ [cid], updated)
      | Some oldHash \<Rightarrow>
          if oldHash \<noteq> newHash then PartialDiff_partial s rest (created, updated @ [cid])
          else PartialDiff_partial s rest (created, updated))"

fun PartialDiff_dirty ::
  "snapshot \<Rightarrow> snapshot \<Rightarrow> ComponentID list \<Rightarrow> ComponentID list \<Rightarrow> ComponentID list" where
  "PartialDiff_dirty s partial [] removed = removed"
| "PartialDiff_dirty s partial (cid # rest) removed =
     (let wasRoot = (lookup s cid \<noteq> None);
          nowRoot = (lookup partial cid \<noteq> None)
      in if \<not> nowRoot \<and> wasRoot then PartialDiff_dirty s partial rest (removed @ [cid])
         else PartialDiff_dirty s partial rest removed)"

definition PartialDiff ::
  "snapshot \<Rightarrow> snapshot \<Rightarrow> ComponentID list
     \<Rightarrow> ComponentID list \<times> ComponentID list \<times> ComponentID list" where
  "PartialDiff s partial dirtyRoots =
     (let (created, updated) = PartialDiff_partial s partial ([], []);
          removed = PartialDiff_dirty s partial dirtyRoots []
      in (created, updated, removed))"


text \<open>
  \<^verbatim>\<open>func (s snapshot) Diff(newer snapshot)\<close>, the difference of two full snapshots: the
  second loop ranges over the older snapshot itself.
\<close>
fun Diff_removed :: "snapshot \<Rightarrow> (ComponentID \<times> ComponentHash) list \<Rightarrow> ComponentID list
                       \<Rightarrow> ComponentID list" where
  "Diff_removed newer [] removed = removed"
| "Diff_removed newer ((cid, _) # rest) removed =
     (if lookup newer cid = None then Diff_removed newer rest (removed @ [cid])
      else Diff_removed newer rest removed)"

definition Diff ::
  "snapshot \<Rightarrow> snapshot \<Rightarrow> ComponentID list \<times> ComponentID list \<times> ComponentID list" where
  "Diff s newer =
     (let (created, updated) = PartialDiff_partial s newer ([], []);
          removed = Diff_removed newer s []
      in (created, updated, removed))"

section \<open>Assemblies as the engine sees them, and the change notification\<close>

text \<open>
  The engine handles assemblies through the interface \<^verbatim>\<open>digitaltwin.Assembly\<close> only.
  Of its methods \<^verbatim>\<open>WhatChanged\<close> calls \<^verbatim>\<open>AssemblyID()\<close>, \<^verbatim>\<open>AssemblyHash()\<close> and
  \<^verbatim>\<open>Roots()\<close>; an assembly is recorded by what these return.
\<close>
record Assembly =
  AssemblyID :: ComponentID
  AssemblyHash :: ComponentHash
  Roots :: "NodeHash list"

text \<open>
  \<^verbatim>\<open>AssemblyCreated\<close> and \<^verbatim>\<open>AssemblyUpdated\<close> embed the interface value, which may be nil;
  \<^verbatim>\<open>AssemblyRemoved\<close> carries the id and the hash.
\<close>
datatype AssemblyCreated = AssemblyCreated (created_Assembly: "Assembly option")
datatype AssemblyUpdated =
  AssemblyUpdated (updated_Baseline: ComponentHash) (updated_Assembly: "Assembly option")
datatype AssemblyRemoved = AssemblyRemoved (removed_ID: ComponentID) (removed_Hash: ComponentHash)

type_synonym time = nat

record GraphChanged =
  GraphBefore :: ForestHash
  Created :: "AssemblyCreated list"
  Updated :: "AssemblyUpdated list"
  Removed :: "AssemblyRemoved list"
  GraphAfter :: ForestHash
  Timestamp :: time

text \<open>The zero value \<^verbatim>\<open>digitaltwin.GraphChanged{}\<close>.\<close>
definition GraphChanged_zero :: GraphChanged where
  "GraphChanged_zero =
     \<lparr>GraphBefore = zeroAddress, Created = [], Updated = [], Removed = [],
      GraphAfter = zeroAddress, Timestamp = 0\<rparr>"

text \<open>A method call through a nil interface value panics.\<close>
definition nil_dereference :: panic where
  "nil_dereference = PanicMsg ''invalid memory address or nil pointer dereference''"

text \<open>\<^verbatim>\<open>func (s snapshot) ContainsAssembly(a digitaltwin.AssemblyRef) bool\<close>\<close>
definition ContainsAssembly :: "snapshot \<Rightarrow> Assembly \<Rightarrow> bool" where
  "ContainsAssembly s a =
     (case lookup s (AssemblyID a) of
        None \<Rightarrow> False
      | Some hash \<Rightarrow> hash = AssemblyHash a)"

text \<open>
  \<^verbatim>\<open>func (s snapshot) Update(changes digitaltwin.GraphChanged)\<close>: three loops, over the
  created, the updated and the removed entries.
\<close>
fun Update_created :: "AssemblyCreated list \<Rightarrow> snapshot \<Rightarrow> snapshot outcome" where
  "Update_created [] s = Return s"
| "Update_created (created # rest) s =
     (case created_Assembly created of
        None \<Rightarrow> Panic nil_dereference
      | Some a \<Rightarrow> Update_created rest (store (AssemblyID a) (AssemblyHash a) s))"

fun Update_updated :: "AssemblyUpdated list \<Rightarrow> snapshot \<Rightarrow> snapshot outcome" where
  "Update_updated [] s = Return s"
| "Update_updated (updated # rest) s =
     (case updated_Assembly updated of
        None \<Rightarrow> Panic nil_dereference
      | Some a \<Rightarrow> Update_updated rest (store (AssemblyID a) (AssemblyHash a) s))"

fun Update_removed :: "AssemblyRemoved list \<Rightarrow> snapshot \<Rightarrow> snapshot" where
  "Update_removed [] s = s"
| "Update_removed (removed # rest) s = Update_removed rest (delete_key (removed_ID removed) s)"

definition Update :: "snapshot \<Rightarrow> GraphChanged \<Rightarrow> snapshot outcome" where
  "Update s changes =
     (case Update_created (Created changes) s of
        Panic m \<Rightarrow> Panic m
      | Return s1 \<Rightarrow>
          (case Update_updated (Updated changes) s1 of
             Panic m \<Rightarrow> Panic m
           | Return s2 \<Rightarrow> Return (Update_removed (Removed changes) s2)))"

section \<open>Tainted nodes\<close>

text \<open>
  \<^verbatim>\<open>RawNode\<close>: the label and the content address are what the modelled code reads.
\<close>
record RawNode =
  Label :: string
  ContentAddress :: NodeHash

text \<open>\<^verbatim>\<open>nodeMap\<close>: the map of tainted nodes; the nil map and the empty map are both \<open>[]\<close>.\<close>
type_synonym nodeMap = "(NodeHash, RawNode) gomap"

text \<open>\<^verbatim>\<open>func (t *nodeMap) Taint(nodes ...RawNode)\<close>\<close>
definition Taint :: "RawNode list \<Rightarrow> nodeMap \<Rightarrow> nodeMap" where
  "Taint nodes t = fold (\<lambda>node m. store (ContentAddress node) node m) nodes t"

text \<open>
  \<^verbatim>\<open>func (t *nodeMap) ClearTaints() []RawNode\<close>: returns the marked nodes and the
  emptied map.
\<close>
definition ClearTaints :: "nodeMap \<Rightarrow> RawNode list \<times> nodeMap" where
  "ClearTaints t = (fold (\<lambda>(_, node) nodes. nodes @ [node]) t [], [])"

section \<open>Fetching the tainted assemblies\<close>

text \<open>
  The backend is outside the repository.  One per-taint query is a parameter: it either
  fails to run, or yields a cursor of records, each of which \<^verbatim>\<open>safelyParseAssembly\<close>
  turns into an assembly, an error or a panic, followed by the cursor's final error.
\<close>
datatype record_result = Parsed Assembly | ParseError error | ParsePanic panic

type_synonym query = "RawNode \<Rightarrow> error + (record_result list \<times> error option)"

type_synonym seen = "(ComponentID, ComponentHash) gomap"

definition isolation_violated :: panic where
  "isolation_violated =
     PanicErr (Errorf ''seek developer attention: a neo4j transaction isolation was violated'')"

text \<open>The inner loop of \<^verbatim>\<open>fetchPartialAssemblies\<close>: \<^verbatim>\<open>for result.Next(ctx)\<close>.\<close>
fun fetch_records ::
  "record_result list \<Rightarrow> seen \<times> Assembly list \<Rightarrow> (error + seen \<times> Assembly list) outcome" where
  "fetch_records [] st = Return (Inr st)"
| "fetch_records (ParsePanic m # rest) st = Panic m"
| "fetch_records (ParseError err # rest) st = Return (Inl (Wrapped ''parse assembly'' err))"
| "fetch_records (Parsed a # rest) (seen, assemblies) =
     (let cid = AssemblyID a in
      case lookup seen cid of
        None \<Rightarrow> fetch_records rest (store cid (AssemblyHash a) seen, assemblies @ [a])
      | Some h \<Rightarrow>
          if h \<noteq> AssemblyHash a then Panic isolation_violated
          else fetch_records rest (seen, assemblies))"

text \<open>The outer loop: \<^verbatim>\<open>for _, taint := range taints\<close>.\<close>
fun fetch_taints ::
  "query \<Rightarrow> RawNode list \<Rightarrow> seen \<times> Assembly list \<Rightarrow> (error + seen \<times> Assembly list) outcome" where
  "fetch_taints q [] st = Return (Inr st)"
| "fetch_taints q (taint # rest) st =
     (case q taint of
        Inl err \<Rightarrow> Return (Inl (Wrapped ''run'' err))
      | Inr (records, iter_err) \<Rightarrow>
          (case fetch_records records st of
             Panic m \<Rightarrow> Panic m
           | Return (Inl err) \<Rightarrow> Return (Inl err)
           | Return (Inr st') \<Rightarrow>
               (case iter_err of
                  Some err \<Rightarrow> Return (Inl (Wrapped ''iterate assembly'' err))
                | None \<Rightarrow> fetch_taints q rest st')))"

text \<open>
  \<^verbatim>\<open>func fetchPartialAssemblies(ctx, s, taints)\<close>; the work function is run once by
  \<^verbatim>\<open>ExecuteRead\<close>.
\<close>
definition fetchPartialAssemblies :: "query \<Rightarrow> RawNode list \<Rightarrow> (error + Assembly list) outcome" where
  "fetchPartialAssemblies q taints =
     (case fetch_taints q taints ([], []) of
        Panic m \<Rightarrow> Panic m
      | Return (Inl err) \<Rightarrow> Return (Inl (Wrapped ''execute read'' err))
      | Return (Inr (_, assemblies)) \<Rightarrow> Return (Inr assemblies))"

section \<open>The engine\<close>

text \<open>
  \<^verbatim>\<open>Engine\<close>: the snapshot and the tainted nodes are its mutable state (the driver, the
  database name and the mutex are left out: calls are taken one at a time).
\<close>
record Engine =
  snapshot :: snapshot
  taintedNodes :: nodeMap

text \<open>
  \<^verbatim>\<open>func (e *Engine) fetchTaintedAssemblies(ctx)\<close>: drains the taints, then fetches the
  assemblies they belong to.
\<close>
definition fetchTaintedAssemblies ::
  "query \<Rightarrow> Engine \<Rightarrow> (error + RawNode list \<times> Assembly list) outcome \<times> Engine" where
  "fetchTaintedAssemblies q e =
     (let (taints, cleared) = ClearTaints (taintedNodes e);
          e' = e\<lparr>taintedNodes := cleared\<rparr>
      in case fetchPartialAssemblies q taints of
           Panic m \<Rightarrow> (Panic m, e')
         | Return (Inl err) \<Rightarrow> (Return (Inl err), e')
         | Return (Inr assemblies) \<Rightarrow> (Return (Inr (taints, assemblies)), e'))"

text \<open>The first loop of \<^verbatim>\<open>WhatChanged\<close>: \<^verbatim>\<open>for _, a := range assemblies\<close>.\<close>
fun sweep ::
  "snapshot \<Rightarrow> Assembly list \<Rightarrow> snapshot \<times> (ComponentID, Assembly) gomap \<times> nat
     \<Rightarrow> snapshot \<times> (ComponentID, Assembly) gomap \<times> nat" where
  "sweep s [] st = st"
| "sweep s (a # rest) (next, changedAssemblies, rootlessAssemblies) =
     (let next = store (AssemblyID a) (AssemblyHash a) next;
          changedAssemblies =
            (if \<not> ContainsAssembly s a then store (AssemblyID a) a changedAssemblies
             else changedAssemblies);
          rootlessAssemblies =
            (if length (Roots a) = 0 then rootlessAssemblies + 1 else rootlessAssemblies)
      in sweep s rest (next, changedAssemblies, rootlessAssemblies))"

text \<open>
  The second loop: the component id of each taint.  \<^verbatim>\<open>componentID\<close> parses the raw
  node through the node registry, which is a parameter here.
\<close>
fun dirty_roots ::
  "(RawNode \<Rightarrow> error + ComponentID) \<Rightarrow> RawNode list \<Rightarrow> error + ComponentID list" where
  "dirty_roots componentID [] = Inr []"
| "dirty_roots componentID (n # rest) =
     (case componentID n of
        Inl err \<Rightarrow> Inl (Wrapped (Label n @ '' component'') err)
      | Inr cid \<Rightarrow>
          (case dirty_roots componentID rest of
             Inl err \<Rightarrow> Inl err
           | Inr ids \<Rightarrow> Inr (cid # ids)))"

text \<open>
  \<^verbatim>\<open>func (e *Engine) WhatChanged(ctx) (changes GraphChanged, err error)\<close>.  The result is
  the returned pair, or a panic, together with the engine afterwards.  \<open>now\<close> is the
  reading of the clock.
\<close>
definition WhatChanged ::
  "digest \<Rightarrow> query \<Rightarrow> (RawNode \<Rightarrow> error + ComponentID) \<Rightarrow> time \<Rightarrow> Engine
     \<Rightarrow> (GraphChanged \<times> error option) outcome \<times> Engine" where
  "WhatChanged H q componentID now e0 =
     (case fetchTaintedAssemblies q e0 of
        (Panic m, e) \<Rightarrow> (Panic m, e)
      | (Return (Inl err), e) \<Rightarrow>
          (Return (GraphChanged_zero, Some (Wrapped ''fetch tainted assemblies'' err)), e)
      | (Return (Inr (taints, assemblies)), e) \<Rightarrow>
          (let (next, changedAssemblies, rootlessAssemblies) =
                 sweep (snapshot e) assemblies ([], [], 0)
           in case dirty_roots componentID taints of
                Inl err \<Rightarrow> (Return (GraphChanged_zero, Some err), e)
              | Inr dirtyRoots \<Rightarrow>
                  (let (created, updated, removed) = PartialDiff (snapshot e) next dirtyRoots;
                       changes = GraphChanged_zero
                         \<lparr>GraphBefore := GraphHash H (snapshot e), Timestamp := now\<rparr>;
                       changes = changes
                         \<lparr>Created := map (\<lambda>cid. AssemblyCreated (lookup changedAssemblies cid))
                                       created\<rparr>;
                       changes = changes
                         \<lparr>Updated := map (\<lambda>cid. AssemblyUpdated (index_ca (snapshot e) cid)
                                                 (lookup changedAssemblies cid)) updated\<rparr>;
                       changes = changes
                         \<lparr>Removed := map (\<lambda>cid. AssemblyRemoved cid (index_ca (snapshot e) cid))
                                       removed\<rparr>
                   in if rootlessAssemblies > 0
                      then (Return (changes, Some errFoundRootlessAssemblies), e)
                      else (case Update (snapshot e) changes of
                              Panic m \<Rightarrow> (Panic m, e)
                            | Return s' \<Rightarrow>
                                (let e = e\<lparr>snapshot := s'\<rparr>;
                                     changes = changes\<lparr>GraphAfter := GraphHash H (snapshot e)\<rparr>
                                 in (Return (changes, None), e))))))"


text \<open>
  The merge of a change set into a snapshot as the specification words it, on the mapping
  itself: add each created entry, replace each updated entry, delete each removed entry.
\<close>
definition ref_of :: "Assembly \<Rightarrow> ComponentID \<times> ComponentHash" where
  "ref_of a = (AssemblyID a, AssemblyHash a)"

definition created_entries :: "GraphChanged \<Rightarrow> (ComponentID \<times> ComponentHash) list" where
  "created_entries changes = map ref_of (List.map_filter created_Assembly (Created changes))"

definition updated_entries :: "GraphChanged \<Rightarrow> (ComponentID \<times> ComponentHash) list" where
  "updated_entries changes = map ref_of (List.map_filter updated_Assembly (Updated changes))"

definition put_all ::
  "(ComponentID \<times> ComponentHash) list \<Rightarrow> (ComponentID \<rightharpoonup> ComponentHash)
     \<Rightarrow> (ComponentID \<rightharpoonup> ComponentHash)" where
  "put_all entries m = fold (\<lambda>(k, v) m. m(k \<mapsto> v)) entries m"

definition drop_all ::
  "ComponentID list \<Rightarrow> (ComponentID \<rightharpoonup> ComponentHash) \<Rightarrow> (ComponentID \<rightharpoonup> ComponentHash)" where
  "drop_all ids m = fold (\<lambda>k m. m(k := None)) ids m"

definition merge_spec ::
  "(ComponentID \<rightharpoonup> ComponentHash) \<Rightarrow> GraphChanged \<Rightarrow> (ComponentID \<rightharpoonup> ComponentHash)" where
  "merge_spec m changes =
     drop_all (map removed_ID (Removed changes))
       (put_all (updated_entries changes) (put_all (created_entries changes) m))"


section \<open>Relationship assertions\<close>

text \<open>
  \<^verbatim>\<open>digitaltwin.GraphWriter\<close>: the four primitive operations, over a writer state \<open>'w\<close>
  (the graph behind the writer), node values \<open>'v\<close> and node types \<open>'t\<close>.  The last field
  is the result of the type assertion \<^verbatim>\<open>a.GraphWriter.(OneToOneAsserter)\<close>: the
  specialised method when the writer has one.
\<close>
record ('w, 'v, 't) GraphWriter =
  AssertNode :: "'v \<Rightarrow> 'w \<Rightarrow> error option \<times> 'w"
  RetractNode :: "'v \<Rightarrow> 'w \<Rightarrow> error option \<times> 'w"
  AssertEdge :: "'v \<Rightarrow> 'v \<Rightarrow> 'w \<Rightarrow> error option \<times> 'w"
  RetractEdges :: "'v \<Rightarrow> 't \<Rightarrow> 'w \<Rightarrow> (int \<times> error option) \<times> 'w"
  AssertOneToOne :: "('v \<Rightarrow> 'v \<Rightarrow> 'w \<Rightarrow> error option \<times> 'w) option"

text \<open>\<^verbatim>\<open>func newGraphIntegrityError(relationship, direction string, affectedEdges int) error\<close>\<close>
definition newGraphIntegrityError :: "string \<Rightarrow> string \<Rightarrow> int \<Rightarrow> error outcome" where
  "newGraphIntegrityError relationship direction affectedEdges =
     (if relationship \<noteq> ''one-to-one'' \<and> relationship \<noteq> ''one-to-many''
           \<and> relationship \<noteq> ''many-to-one''
      then Panic (PanicMsg (''github.com/go-digitaltwin/go-digitaltwin/assert: unknown relationship: ''
                             @ relationship))
      else if direction \<noteq> ''from source'' \<and> direction \<noteq> ''to target''
      then Panic (PanicMsg (''github.com/go-digitaltwin/go-digitaltwin/assert: unknown direction: ''
                             @ direction))
      else Return (InconsistentGraph relationship affectedEdges direction))"

text \<open>\<^verbatim>\<open>panic(newGraphIntegrityError(...))\<close>: the argument is evaluated first.\<close>
fun panic_with :: "error outcome \<Rightarrow> 'a outcome" where
  "panic_with (Return err) = Panic (PanicErr err)"
| "panic_with (Panic p) = Panic p"

text \<open>
  \<^verbatim>\<open>func (a relationshipWriter) OneToOne(ctx, source, target digitaltwin.Value) error\<close>;
  \<open>TypeOf\<close> is \<^verbatim>\<open>reflect.TypeOf\<close>.  The result is the returned error or a panic, with the
  writer state reached.
\<close>
definition OneToOne ::
  "('w, 'v, 't) GraphWriter \<Rightarrow> ('v \<Rightarrow> 't) \<Rightarrow> 'v \<Rightarrow> 'v \<Rightarrow> 'w \<Rightarrow> error option outcome \<times> 'w" where
  "OneToOne a TypeOf source target w =
     (case AssertOneToOne a of
        Some x \<Rightarrow> (let (err, w') = x source target w in (Return err, w'))
      | None \<Rightarrow>
          (let ((edgesFrom, err), w1) = RetractEdges a source (TypeOf target) w in
           case err of
             Some e \<Rightarrow> (Return (Some (Wrapped ''retract edges from'' e)), w1)
           | None \<Rightarrow>
               if edgesFrom > 1
               then (panic_with (newGraphIntegrityError ''one-to-one'' ''from source'' edgesFrom), w1)
               else
                 (let ((edgesTo, err), w2) = RetractEdges a target (TypeOf source) w1 in
                  case err of
                    Some e \<Rightarrow> (Return (Some (Wrapped ''retract edges to'' e)), w2)
                  | None \<Rightarrow>
                      if edgesTo > 1
                      then (panic_with (newGraphIntegrityError ''one-to-one'' ''to target'' edgesTo), w2)
                      else
                        (let (err, w3) = AssertEdge a source target w2 in
                         case err of
                           Some e \<Rightarrow> (Return (Some (Wrapped ''assert edge'' e)), w3)
                         | None \<Rightarrow> (Return None, w3)))))"

text \<open>
  A writer that only records the calls it receives, in order, and answers every
  retraction with a fixed count.
\<close>
datatype ('v, 't) call = CallAssertNode 'v | CallRetractNode 'v | CallAssertEdge 'v 'v
  | CallRetractEdges 'v 't

definition recordingWriter :: "int \<Rightarrow> (('v, 't) call list, 'v, 't) GraphWriter" where
  "recordingWriter n =
     \<lparr>AssertNode = (\<lambda>v log. (None, log @ [CallAssertNode v])),
      RetractNode = (\<lambda>v log. (None, log @ [CallRetractNode v])),
      AssertEdge = (\<lambda>from to log. (None, log @ [CallAssertEdge from to])),
      RetractEdges = (\<lambda>v kind log. ((n, None), log @ [CallRetractEdges v kind])),
      AssertOneToOne = None\<rparr>"

section \<open>Slices, maps and the heap\<close>

text \<open>
  The builder and the assembly graph hold slices and maps, which refer to storage that
  copies of the holder share.  The heap keeps that storage by address: the backing
  arrays of \<^verbatim>\<open>[]NodeHash\<close> slices, and one table for each type of map in use,
  \<^verbatim>\<open>map[NodeHash]Value\<close>, \<^verbatim>\<open>map[NodeHash]struct{}\<close>,
  \<^verbatim>\<open>map[NodeHash]map[NodeHash]struct{}\<close> and \<^verbatim>\<open>map[NodeHash][]NodeHash\<close>.  Every
  allocation takes the next address \<open>fresh\<close>.
\<close>

type_synonym addr = nat

text \<open>A slice: the backing array, the offset into it, the length and the capacity.\<close>
record slice =
  arr :: addr
  off :: nat
  len :: nat
  cap :: nat

definition nil_slice :: slice where
  "nil_slice = \<lparr>arr = 0, off = 0, len = 0, cap = 0\<rparr>"

record 'v heap =
  arrays :: "addr \<Rightarrow> NodeHash list"
  nodemaps :: "addr \<Rightarrow> (NodeHash, 'v) gomap"
  hashsets :: "addr \<Rightarrow> (NodeHash, unit) gomap"
  setmaps :: "addr \<Rightarrow> (NodeHash, addr) gomap"
  slicemaps :: "addr \<Rightarrow> (NodeHash, slice) gomap"
  fresh :: addr

definition empty_heap :: "'v heap" where
  "empty_heap = \<lparr>arrays = (\<lambda>_. []), nodemaps = (\<lambda>_. []), hashsets = (\<lambda>_. []),
                  setmaps = (\<lambda>_. []), slicemaps = (\<lambda>_. []), fresh = 0\<rparr>"

text \<open>The elements of a slice, as \<^verbatim>\<open>range s\<close> visits them.\<close>
definition slice_read :: "'v heap \<Rightarrow> slice \<Rightarrow> NodeHash list" where
  "slice_read h s = take (len s) (drop (off s) (arrays h (arr s)))"

text \<open>Overwriting the elements of a slice in place, from its first element on.\<close>
definition slice_write :: "slice \<Rightarrow> NodeHash list \<Rightarrow> 'v heap \<Rightarrow> 'v heap" where
  "slice_write s xs h =
     (let a = arrays h (arr s)
      in h\<lparr>arrays := (arrays h)(arr s := take (off s) a @ xs @ drop (off s + length xs) a)\<rparr>)"

text \<open>\<^verbatim>\<open>make([]NodeHash, n, c)\<close>: a new array of \<open>c\<close> zero values.\<close>
definition make_slice :: "nat \<Rightarrow> nat \<Rightarrow> 'v heap \<Rightarrow> slice \<times> 'v heap" where
  "make_slice n c h =
     (\<lparr>arr = fresh h, off = 0, len = n, cap = c\<rparr>,
      h\<lparr>arrays := (arrays h)(fresh h := replicate c zeroAddress), fresh := Suc (fresh h)\<rparr>)"

text \<open>\<^verbatim>\<open>copy(dst, src)\<close>: as many elements as the shorter of the two has.\<close>
definition copy_slice :: "slice \<Rightarrow> slice \<Rightarrow> 'v heap \<Rightarrow> 'v heap" where
  "copy_slice dst src h = slice_write dst (take (len dst) (slice_read h src)) h"

text \<open>\<^verbatim>\<open>s[i] = x\<close>: panics when the index is out of range.\<close>
definition index_out_of_range :: panic where
  "index_out_of_range = PanicMsg ''index out of range''"

definition slice_set :: "slice \<Rightarrow> nat \<Rightarrow> NodeHash \<Rightarrow> 'v heap \<Rightarrow> 'v heap outcome" where
  "slice_set s i x h =
     (if i < len s
      then Return (h\<lparr>arrays := (arrays h)(arr s := (arrays h (arr s))[off s + i := x])\<rparr>)
      else Panic index_out_of_range)"

text \<open>
  \<^verbatim>\<open>append(s, x)\<close>: in place while the capacity lasts, into a new and larger array
  otherwise (how much larger is the runtime's choice; one more than twice the old
  capacity here).
\<close>
definition append_slice :: "slice \<Rightarrow> NodeHash \<Rightarrow> 'v heap \<Rightarrow> slice \<times> 'v heap" where
  "append_slice s x h =
     (if len s < cap s
      then (s\<lparr>len := Suc (len s)\<rparr>,
            h\<lparr>arrays := (arrays h)(arr s := (arrays h (arr s))[off s + len s := x])\<rparr>)
      else (let c = Suc (2 * cap s)
            in (\<lparr>arr = fresh h, off = 0, len = Suc (len s), cap = c\<rparr>,
                h\<lparr>arrays := (arrays h)(fresh h :=
                       slice_read h s @ [x] @ replicate (c - Suc (len s)) zeroAddress),
                  fresh := Suc (fresh h)\<rparr>)))"

text \<open>\<^verbatim>\<open>sort.Slice(s, func(i, j int) bool { return bytes.Compare(s[i][:], s[j][:]) < 0 })\<close>\<close>
definition sort_Slice :: "slice \<Rightarrow> 'v heap \<Rightarrow> 'v heap" where
  "sort_Slice s h = slice_write s (sort (slice_read h s)) h"

text \<open>Reading through a map reference that may be nil: a nil map has no entries.\<close>
definition nodes_at :: "'v heap \<Rightarrow> addr option \<Rightarrow> (NodeHash, 'v) gomap" where
  "nodes_at h p = (case p of None \<Rightarrow> [] | Some q \<Rightarrow> nodemaps h q)"

definition setmap_at :: "'v heap \<Rightarrow> addr option \<Rightarrow> (NodeHash, addr) gomap" where
  "setmap_at h p = (case p of None \<Rightarrow> [] | Some q \<Rightarrow> setmaps h q)"

definition slicemap_at :: "'v heap \<Rightarrow> addr option \<Rightarrow> (NodeHash, slice) gomap" where
  "slicemap_at h p = (case p of None \<Rightarrow> [] | Some q \<Rightarrow> slicemaps h q)"

text \<open>\<^verbatim>\<open>m[k]\<close> of a map of slices: the nil slice when the key is absent.\<close>
definition index_slice :: "(NodeHash, slice) gomap \<Rightarrow> NodeHash \<Rightarrow> slice" where
  "index_slice m k = (case lookup m k of Some s \<Rightarrow> s | None \<Rightarrow> nil_slice)"

section \<open>The assembly graph\<close>

text \<open>
  \<^verbatim>\<open>type AssemblyGraph struct { Root []NodeHash; Vertices map[NodeHash]Value;
  Neighbours map[NodeHash][]NodeHash }\<close>.  Its methods have value receivers: they work
  on a copy of the three fields, which refers to the same storage.
\<close>
record AssemblyGraph =
  Root :: slice
  Vertices :: "addr option"
  Neighbours :: "addr option"

text \<open>\<^verbatim>\<open>func (a AssemblyGraph) Roots() []NodeHash { return a.Root }\<close> and its siblings.\<close>
definition AssemblyGraph_Roots :: "AssemblyGraph \<Rightarrow> slice" where
  "AssemblyGraph_Roots a = Root a"

definition AssemblyGraph_Nodes :: "'v heap \<Rightarrow> AssemblyGraph \<Rightarrow> (NodeHash, 'v) gomap" where
  "AssemblyGraph_Nodes h a = nodes_at h (Vertices a)"

definition AssemblyGraph_Value :: "'v heap \<Rightarrow> AssemblyGraph \<Rightarrow> NodeHash \<Rightarrow> 'v option" where
  "AssemblyGraph_Value h a n = lookup (nodes_at h (Vertices a)) n"

definition AssemblyGraph_EdgesOf :: "'v heap \<Rightarrow> AssemblyGraph \<Rightarrow> NodeHash \<Rightarrow> slice" where
  "AssemblyGraph_EdgesOf h a n = index_slice (slicemap_at h (Neighbours a)) n"

text \<open>
  \<^verbatim>\<open>func (a AssemblyGraph) AssemblyID() ComponentID\<close>: sorts \<^verbatim>\<open>a.Root\<close> where it
  lies, then writes the roots in that order.
\<close>
definition AssemblyGraph_AssemblyID ::
  "digest \<Rightarrow> AssemblyGraph \<Rightarrow> 'v heap \<Rightarrow> ComponentID \<times> 'v heap" where
  "AssemblyGraph_AssemblyID H a h0 =
     (let h = sort_Slice (Root a) h0;
          d = fold (\<lambda>r d. Write d r) (slice_read h (Root a)) New
      in (Sum H d, h))"

text \<open>
  \<^verbatim>\<open>func (a AssemblyGraph) AssemblyHash() ComponentHash\<close>.  The loop over the sorted
  node hashes sorts each neighbour slice where it lies before writing it.
\<close>
fun AssemblyHash_loop ::
  "AssemblyGraph \<Rightarrow> NodeHash list \<Rightarrow> hash_state \<times> 'v heap \<Rightarrow> hash_state \<times> 'v heap" where
  "AssemblyHash_loop a [] (d, h) = (d, h)"
| "AssemblyHash_loop a (from # rest) (d, h) =
     (let d = Write d from;
          neighbours = index_slice (slicemap_at h (Neighbours a)) from;
          h = sort_Slice neighbours h;
          d = fold (\<lambda>to d. Write d to) (slice_read h neighbours) d
      in AssemblyHash_loop a rest (d, h))"

definition AssemblyGraph_AssemblyHash ::
  "digest \<Rightarrow> AssemblyGraph \<Rightarrow> 'v heap \<Rightarrow> ComponentHash \<times> 'v heap" where
  "AssemblyGraph_AssemblyHash H a h0 =
     (let (cid, h) = AssemblyGraph_AssemblyID H a h0;
          d = Write New cid;
          nodes = fold (\<lambda>(n, _) nodes. nodes @ [n]) (nodes_at h (Vertices a)) [];
          nodes = sort nodes;
          (d, h) = AssemblyHash_loop a nodes (d, h)
      in (Sum H d, h))"


section \<open>The assembly builder\<close>

text \<open>
  \<^verbatim>\<open>type AssemblyBuilder struct { roots []NodeHash; nodes map[NodeHash]Value;
  neighbours map[NodeHash]map[NodeHash]struct{}; addr *AssemblyBuilder }\<close>.
  Its methods have pointer receivers; \<open>self\<close> below is the address of the receiver,
  which \<^verbatim>\<open>copyCheck\<close> compares with the one it stored.
\<close>
record AssemblyBuilder =
  roots :: slice
  nodes :: "addr option"
  neighbours :: "addr option"
  addr :: "addr option"

text \<open>The zero value, ready to use.\<close>
definition zero_builder :: AssemblyBuilder where
  "zero_builder = \<lparr>roots = nil_slice, nodes = None, neighbours = None, addr = None\<rparr>"

definition obind :: "'a outcome \<Rightarrow> ('a \<Rightarrow> 'b outcome) \<Rightarrow> 'b outcome" where
  "obind m f = (case m of Return x \<Rightarrow> f x | Panic p \<Rightarrow> Panic p)"

text \<open>
  \<^verbatim>\<open>func MustContentAddress(node Value) NodeHash\<close>, over the content-address function
  \<open>ca\<close> of the node values.
\<close>
definition MustContentAddress :: "('v \<Rightarrow> error + NodeHash) \<Rightarrow> 'v \<Rightarrow> NodeHash outcome" where
  "MustContentAddress ca node =
     (case ca node of
        Inl err \<Rightarrow> Panic (PanicMsg ''digitaltwin: un-hashable node'')
      | Inr h \<Rightarrow> Return h)"

text \<open>\<^verbatim>\<open>func (b *AssemblyBuilder) copyCheck()\<close>\<close>
definition copyCheck :: "addr \<Rightarrow> AssemblyBuilder \<Rightarrow> AssemblyBuilder outcome" where
  "copyCheck self b =
     (if addr b = None then Return (b\<lparr>addr := Some self\<rparr>)
      else if addr b \<noteq> Some self
      then Panic (PanicMsg ''digitaltwin: illegal use of non-zero AssemblyBuilder copied by value'')
      else Return b)"

text \<open>An assignment \<^verbatim>\<open>m[k] = v\<close> through a map reference panics when the map is nil.\<close>
definition nil_map_assignment :: panic where
  "nil_map_assignment = PanicMsg ''assignment to entry in nil map''"

definition nodemap_store :: "addr option \<Rightarrow> NodeHash \<Rightarrow> 'v \<Rightarrow> 'v heap \<Rightarrow> 'v heap outcome" where
  "nodemap_store p k v h =
     (case p of
        None \<Rightarrow> Panic nil_map_assignment
      | Some q \<Rightarrow> Return (h\<lparr>nodemaps := (nodemaps h)(q := store k v (nodemaps h q))\<rparr>))"

text \<open>\<^verbatim>\<open>func (b *AssemblyBuilder) Nodes(node ...Value)\<close>\<close>
fun Nodes_loop ::
  "('v \<Rightarrow> error + NodeHash) \<Rightarrow> 'v list \<Rightarrow> addr option \<Rightarrow> 'v heap \<Rightarrow> 'v heap outcome" where
  "Nodes_loop ca [] p h = Return h"
| "Nodes_loop ca (n # rest) p h =
     obind (MustContentAddress ca n) (\<lambda>k.
     obind (nodemap_store p k n h) (\<lambda>h.
     Nodes_loop ca rest p h))"

definition Builder_Nodes ::
  "('v \<Rightarrow> error + NodeHash) \<Rightarrow> addr \<Rightarrow> 'v list \<Rightarrow> AssemblyBuilder \<times> 'v heap
     \<Rightarrow> (AssemblyBuilder \<times> 'v heap) outcome" where
  "Builder_Nodes ca self node st =
     (case st of (b, h) \<Rightarrow>
      obind (copyCheck self b) (\<lambda>b.
      let (b, h) =
            (if nodes b = None
             then (b\<lparr>nodes := Some (fresh h)\<rparr>,
                   h\<lparr>nodemaps := (nodemaps h)(fresh h := []), fresh := Suc (fresh h)\<rparr>)
             else (b, h))
      in obind (Nodes_loop ca node (nodes b) h) (\<lambda>h. Return (b, h))))"

text \<open>\<^verbatim>\<open>func (b *AssemblyBuilder) Connect(source, target Value)\<close>\<close>
definition Builder_Connect ::
  "('v \<Rightarrow> error + NodeHash) \<Rightarrow> addr \<Rightarrow> 'v \<Rightarrow> 'v \<Rightarrow> AssemblyBuilder \<times> 'v heap
     \<Rightarrow> (AssemblyBuilder \<times> 'v heap) outcome" where
  "Builder_Connect ca self source target st =
     (case st of (b, h) \<Rightarrow>
      obind (copyCheck self b) (\<lambda>b.
      obind (Builder_Nodes ca self [source, target] (b, h)) (\<lambda>(b, h).
      obind (MustContentAddress ca source) (\<lambda>from.
      obind (MustContentAddress ca target) (\<lambda>to.
      let (b, h) =
            (if neighbours b = None
             then (b\<lparr>neighbours := Some (fresh h)\<rparr>,
                   h\<lparr>setmaps := (setmaps h)(fresh h := []), fresh := Suc (fresh h)\<rparr>)
             else (b, h))
      in case neighbours b of
           None \<Rightarrow> Panic nil_map_assignment
         | Some q \<Rightarrow>
             (let h = (if lookup (setmaps h q) from = None
                       then h\<lparr>hashsets := (hashsets h)(fresh h := []),
                              setmaps := (setmaps h)(q := store from (fresh h) (setmaps h q)),
                              fresh := Suc (fresh h)\<rparr>
                       else h)
              in case lookup (setmaps h q) from of
                   None \<Rightarrow> Panic nil_map_assignment
                 | Some r \<Rightarrow>
                     Return (b, h\<lparr>hashsets := (hashsets h)(r := store to () (hashsets h r))\<rparr>)))))))"

text \<open>\<^verbatim>\<open>func (b *AssemblyBuilder) Roots(root ...Value)\<close>\<close>
fun Roots_loop ::
  "('v \<Rightarrow> error + NodeHash) \<Rightarrow> slice \<Rightarrow> nat \<Rightarrow> 'v list \<Rightarrow> 'v heap \<Rightarrow> 'v heap outcome" where
  "Roots_loop ca s i [] h = Return h"
| "Roots_loop ca s i (n # rest) h =
     obind (MustContentAddress ca n) (\<lambda>x.
     obind (slice_set s i x h) (\<lambda>h.
     Roots_loop ca s (Suc i) rest h))"

definition Builder_Roots ::
  "('v \<Rightarrow> error + NodeHash) \<Rightarrow> addr \<Rightarrow> 'v list \<Rightarrow> AssemblyBuilder \<times> 'v heap
     \<Rightarrow> (AssemblyBuilder \<times> 'v heap) outcome" where
  "Builder_Roots ca self root st =
     (case st of (b, h) \<Rightarrow>
      obind (copyCheck self b) (\<lambda>b.
      obind (Builder_Nodes ca self root (b, h)) (\<lambda>(b, h).
      let (b, h) =
            (if len (roots b) > length root
             then (b\<lparr>roots := (roots b)\<lparr>len := length root\<rparr>\<rparr>, h)
             else (let (s, h) = make_slice (length root) (length root) h
                   in (b\<lparr>roots := s\<rparr>, h)))
      in obind (Roots_loop ca (roots b) 0 root h) (\<lambda>h. Return (b, h)))))"

text \<open>\<^verbatim>\<open>func (b *AssemblyBuilder) Reset()\<close>\<close>
definition Builder_Reset :: "AssemblyBuilder \<times> 'v heap \<Rightarrow> AssemblyBuilder \<times> 'v heap" where
  "Builder_Reset st =
     (case st of (b, h) \<Rightarrow>
      (b\<lparr>roots := nil_slice, nodes := None, neighbours := None, addr := None\<rparr>, h))"

text \<open>\<^verbatim>\<open>func (b *AssemblyBuilder) hintNodes(n int)\<close>: the node map moves to a new map.\<close>
definition hintNodes :: "AssemblyBuilder \<times> 'v heap \<Rightarrow> AssemblyBuilder \<times> 'v heap" where
  "hintNodes st =
     (case st of (b, h) \<Rightarrow>
      (let p = fresh h;
           h = h\<lparr>nodemaps := (nodemaps h)(p := []), fresh := Suc p\<rparr>;
           h = fold (\<lambda>(k, v) h. h\<lparr>nodemaps := (nodemaps h)(p := store k v (nodemaps h p))\<rparr>)
                 (nodes_at h (nodes b)) h
       in (b\<lparr>nodes := Some p\<rparr>, h)))"

text \<open>\<^verbatim>\<open>func (b *AssemblyBuilder) Hint(n, e int)\<close>\<close>
definition Builder_Hint ::
  "addr \<Rightarrow> int \<Rightarrow> int \<Rightarrow> AssemblyBuilder \<times> 'v heap \<Rightarrow> (AssemblyBuilder \<times> 'v heap) outcome" where
  "Builder_Hint self n e st =
     (case st of (b, h) \<Rightarrow>
      obind (copyCheck self b) (\<lambda>b.
      if n < 0 then Panic (PanicMsg ''digitaltwin.AssemblyBuilder.Grow: negative node count'')
      else (let (b, h) = (if int (length (nodes_at h (nodes b))) < n then hintNodes (b, h)
                          else (b, h))
            in if e < 0
               then Panic (PanicMsg ''digitaltwin.AssemblyBuilder.Grow: negative edge count'')
               else Return (b, h))))"

text \<open>
  \<^verbatim>\<open>func (b *AssemblyBuilder) Assemble() Assembly\<close>.  The three parts copy the roots,
  the node map and the neighbour sets into storage of the graph's own.
\<close>
definition Assemble_roots :: "AssemblyBuilder \<Rightarrow> 'v heap \<Rightarrow> slice \<times> 'v heap" where
  "Assemble_roots b h =
     (if len (roots b) \<noteq> 0
      then (let (s, h) = make_slice (len (roots b)) (len (roots b)) h
            in (s, copy_slice s (roots b) h))
      else (nil_slice, h))"

definition Assemble_vertices :: "AssemblyBuilder \<Rightarrow> 'v heap \<Rightarrow> addr option \<times> 'v heap" where
  "Assemble_vertices b h =
     (if length (nodes_at h (nodes b)) \<noteq> 0
      then (let p = fresh h;
                entries = nodes_at h (nodes b);
                h = h\<lparr>nodemaps := (nodemaps h)(p := []), fresh := Suc p\<rparr>;
                h = fold (\<lambda>(k, n) h. h\<lparr>nodemaps := (nodemaps h)(p := store k n (nodemaps h p))\<rparr>)
                      entries h
            in (Some p, h))
      else (None, h))"

fun Assemble_inner :: "addr \<Rightarrow> NodeHash \<Rightarrow> (NodeHash \<times> unit) list \<Rightarrow> 'v heap \<Rightarrow> 'v heap" where
  "Assemble_inner p k [] h = h"
| "Assemble_inner p k ((n, _) # rest) h =
     (let (s, h) = append_slice (index_slice (slicemaps h p) k) n h;
          h = h\<lparr>slicemaps := (slicemaps h)(p := store k s (slicemaps h p))\<rparr>
      in Assemble_inner p k rest h)"

fun Assemble_outer :: "addr \<Rightarrow> (NodeHash \<times> addr) list \<Rightarrow> 'v heap \<Rightarrow> 'v heap" where
  "Assemble_outer p [] h = h"
| "Assemble_outer p ((k, r) # rest) h =
     (let (s, h) = make_slice 0 (length (hashsets h r)) h;
          h = h\<lparr>slicemaps := (slicemaps h)(p := store k s (slicemaps h p))\<rparr>;
          h = Assemble_inner p k (hashsets h r) h
      in Assemble_outer p rest h)"

definition Assemble_neighbours :: "AssemblyBuilder \<Rightarrow> 'v heap \<Rightarrow> addr option \<times> 'v heap" where
  "Assemble_neighbours b h =
     (if length (setmap_at h (neighbours b)) \<noteq> 0
      then (let p = fresh h;
                entries = setmap_at h (neighbours b);
                h = h\<lparr>slicemaps := (slicemaps h)(p := []), fresh := Suc p\<rparr>
            in (Some p, Assemble_outer p entries h))
      else (None, h))"

definition Assemble :: "AssemblyBuilder \<Rightarrow> 'v heap \<Rightarrow> AssemblyGraph \<times> 'v heap" where
  "Assemble b h =
     (let (r, h) = Assemble_roots b h;
          (v, h) = Assemble_vertices b h;
          (n, h) = Assemble_neighbours b h
      in (\<lparr>Root = r, Vertices = v, Neighbours = n\<rparr>, h))"

text \<open>The mutating methods of the builder, and a sequence of calls to them.\<close>
datatype 'v mutation =
    CallNodes "'v list"
  | CallConnect 'v 'v
  | CallRoots "'v list"
  | CallReset
  | CallHint int int

fun mutate ::
  "('v \<Rightarrow> error + NodeHash) \<Rightarrow> addr \<Rightarrow> 'v mutation \<Rightarrow> AssemblyBuilder \<times> 'v heap
     \<Rightarrow> (AssemblyBuilder \<times> 'v heap) outcome" where
  "mutate ca self (CallNodes node) st = Builder_Nodes ca self node st"
| "mutate ca self (CallConnect source target) st = Builder_Connect ca self source target st"
| "mutate ca self (CallRoots root) st = Builder_Roots ca self root st"
| "mutate ca self CallReset st = Return (Builder_Reset st)"
| "mutate ca self (CallHint n e) st = Builder_Hint self n e st"

fun mutate_all ::
  "('v \<Rightarrow> error + NodeHash) \<Rightarrow> addr \<Rightarrow> 'v mutation list \<Rightarrow> AssemblyBuilder \<times> 'v heap
     \<Rightarrow> (AssemblyBuilder \<times> 'v heap) outcome" where
  "mutate_all ca self [] st = Return st"
| "mutate_all ca self (m # ms) st = obind (mutate ca self m st) (mutate_all ca self ms)"

text \<open>
  What an assembly graph holds, read through the heap: its roots, its node mapping and
  its adjacency mapping.
\<close>
definition AssemblyGraph_contents ::
  "'v heap \<Rightarrow> AssemblyGraph
     \<Rightarrow> NodeHash list \<times> (NodeHash, 'v) gomap \<times> (NodeHash, NodeHash list) gomap" where
  "AssemblyGraph_contents h g =
     (slice_read h (AssemblyGraph_Roots g),
      AssemblyGraph_Nodes h g,
      map (\<lambda>(k, s). (k, slice_read h s)) (slicemap_at h (Neighbours g)))"

text \<open>Everything the builder refers to has been allocated.\<close>
definition builder_allocated :: "AssemblyBuilder \<Rightarrow> 'v heap \<Rightarrow> bool" where
  "builder_allocated b h =
     ((len (roots b) = 0 \<or> arr (roots b) < fresh h)
      \<and> (case nodes b of None \<Rightarrow> True | Some p \<Rightarrow> p < fresh h))"


text \<open>
  The storage allocated at the addresses from \<open>F0\<close> up to \<open>F1\<close>: a graph lies inside it
  when its root array, its node map and the arrays of its neighbour slices were
  allocated there; a builder lies outside it when its root array and its node map were
  not; a later heap keeps it when it still holds there, and in the maps of slices, what
  the heap \<open>h1\<close> held.
\<close>
definition graph_inside :: "addr \<Rightarrow> addr \<Rightarrow> 'v heap \<Rightarrow> AssemblyGraph \<Rightarrow> bool" where
  "graph_inside F0 F1 h1 g =
     ((len (Root g) = 0 \<or> (F0 \<le> arr (Root g) \<and> arr (Root g) < F1))
      \<and> (case Vertices g of None \<Rightarrow> True | Some p \<Rightarrow> F0 \<le> p \<and> p < F1)
      \<and> list_all (\<lambda>(k, s). F0 \<le> arr s \<and> arr s < F1) (slicemap_at h1 (Neighbours g)))"

definition builder_outside :: "addr \<Rightarrow> addr \<Rightarrow> AssemblyBuilder \<Rightarrow> bool" where
  "builder_outside F0 F1 b =
     ((len (roots b) = 0 \<or> arr (roots b) < F0 \<or> F1 \<le> arr (roots b))
      \<and> (case nodes b of None \<Rightarrow> True | Some p \<Rightarrow> p < F0 \<or> F1 \<le> p))"

definition region_kept :: "addr \<Rightarrow> addr \<Rightarrow> 'v heap \<Rightarrow> 'v heap \<Rightarrow> bool" where
  "region_kept F0 F1 h1 h =
     (F1 \<le> fresh h \<and> slicemaps h = slicemaps h1
      \<and> (\<forall>x. F0 \<le> x \<and> x < F1 \<longrightarrow> arrays h x = arrays h1 x \<and> nodemaps h x = nodemaps h1 x))"


text \<open>
  What a builder holds, read through the heap: its roots, its node mapping, and for
  every source node the targets in its neighbour set.  The builder is well formed when
  its root slice lies within its array and its maps have each key once.
\<close>
definition builder_contents ::
  "'v heap \<Rightarrow> AssemblyBuilder
     \<Rightarrow> NodeHash list \<times> (NodeHash, 'v) gomap \<times> (NodeHash, NodeHash list) gomap" where
  "builder_contents h b =
     (slice_read h (roots b),
      nodes_at h (nodes b),
      map (\<lambda>(k, r). (k, map fst (hashsets h r))) (setmap_at h (neighbours b)))"

definition builder_wf :: "'v heap \<Rightarrow> AssemblyBuilder \<Rightarrow> bool" where
  "builder_wf h b =
     (off (roots b) + len (roots b) \<le> length (arrays h (arr (roots b)))
      \<and> wf_map (nodes_at h (nodes b))
      \<and> wf_map (setmap_at h (neighbours b)))"


section \<open>The component id of a tainted node\<close>

text \<open>
  \<^verbatim>\<open>func componentID(taint RawNode) (id digitaltwin.ComponentID, err error)\<close>: parse the
  raw node, make it the only root of a new builder, assemble, take the id.  The builder
  is a local variable: it starts from the zero value on storage nothing else refers to.
  \<open>ParseNode\<close> (the node registry and its codec) and the content address \<open>ca\<close> of node
  values are parameters.
\<close>
definition componentID ::
  "digest \<Rightarrow> (RawNode \<Rightarrow> error + 'v) \<Rightarrow> ('v \<Rightarrow> error + NodeHash) \<Rightarrow> RawNode
     \<Rightarrow> (error + ComponentID) outcome" where
  "componentID H ParseNode ca taint =
     (case ParseNode taint of
        Inl err \<Rightarrow> Return (Inl (Wrapped ''parse taint'' err))
      | Inr v \<Rightarrow>
          obind (Builder_Roots ca 0 [v] (zero_builder, empty_heap)) (\<lambda>(b, h).
          let (g, h) = Assemble b h;
              (cid, h) = AssemblyGraph_AssemblyID H g h
          in Return (Inr cid)))"


section \<open>Reflective content addressing\<close>

text \<open>
  What \<^verbatim>\<open>reflectiveContentAddress\<close> learns of a value through the \<^verbatim>\<open>reflect\<close> package
  is kept as data.  A value of struct kind is the list of its visible fields in the
  order \<^verbatim>\<open>reflect.VisibleFields\<close> gives them (declaration order), each with its name,
  whether it is exported, whether it is the embedded \<^verbatim>\<open>InformationElement\<close> marker, and
  the field's value.  A pointer carries its element type, from which
  \<^verbatim>\<open>reflect.New(value.Type().Elem()).Elem()\<close> makes the zero value.  \<open>VCustom\<close> marks a
  value whose dynamic type has a \<^verbatim>\<open>ContentAddress\<close> or a \<^verbatim>\<open>MarshalBinary\<close> method,
  with what the call of that method does on this value.
\<close>

text \<open>Fixed-size kinds: bool, and the sized integers and floats by their bit patterns.\<close>
datatype fixed =
    FixedBool bool
  | Fixed8 "8 word"
  | Fixed16 "16 word"
  | Fixed32 "32 word"
  | Fixed64 "64 word"

datatype fixedkind = KBool | K8 | K16 | K32 | K64

text \<open>The elements of an array or a slice, by the kind of the element type.\<close>
datatype elements =
    Ints "64 word list"
  | Uints "64 word list"
  | Fixeds "fixed list"
  | Strings "string list"
  | Others string

datatype elemkind = EInt | EUint | EFixed fixedkind | EString | EOther string

text \<open>
  A method found by the type assertions \<^verbatim>\<open>value.Interface().(ContentAddresser)\<close> and
  \<^verbatim>\<open>value.Interface().(encoding.BinaryMarshaler)\<close>: the bytes the first writes to the
  digest and the error it returns, the bytes or the error the second returns, or the
  panic of the call.
\<close>
datatype custom =
    ContentAddresser "(byte list \<times> error option) outcome"
  | BinaryMarshaler "(error + byte list) outcome"


datatype gtype =
    TStruct "tfield list"
  | TString
  | TInt
  | TUint
  | TFixed fixedkind
  | TInterface
  | TPtr gtype
  | TSlice elemkind
  | TArray nat elemkind
  | TOther string
  | TCustom custom gtype
and tfield = TField string bool bool gtype

datatype gvalue =
    VStruct "field list"
  | VString string
  | VInt "64 word"
  | VUint "64 word"
  | VFixed fixed
  | VInterface "gvalue option"
  | VPtr gtype "gvalue option"
  | VElements elements
  | VOther string
  | VCustom custom gvalue
and field = Field (fname: string) (exported: bool) (is_marker: bool) (fvalue: gvalue)

text \<open>The zero value of a type.\<close>
definition zero_fixed :: "fixedkind \<Rightarrow> fixed" where
  "zero_fixed k =
     (case k of KBool \<Rightarrow> FixedBool False | K8 \<Rightarrow> Fixed8 0 | K16 \<Rightarrow> Fixed16 0
      | K32 \<Rightarrow> Fixed32 0 | K64 \<Rightarrow> Fixed64 0)"

definition zero_elements :: "nat \<Rightarrow> elemkind \<Rightarrow> elements" where
  "zero_elements n k =
     (case k of
        EInt \<Rightarrow> Ints (replicate n 0)
      | EUint \<Rightarrow> Uints (replicate n 0)
      | EFixed f \<Rightarrow> Fixeds (replicate n (zero_fixed f))
      | EString \<Rightarrow> Strings (replicate n [])
      | EOther name \<Rightarrow> Others name)"

fun zero :: "gtype \<Rightarrow> gvalue" and zero_field :: "tfield \<Rightarrow> field" where
  "zero (TStruct fs) = VStruct (map zero_field fs)"
| "zero TString = VString []"
| "zero TInt = VInt 0"
| "zero TUint = VUint 0"
| "zero (TFixed k) = VFixed (zero_fixed k)"
| "zero TInterface = VInterface None"
| "zero (TPtr t) = VPtr t None"
| "zero (TSlice k) = VElements (zero_elements 0 k)"
| "zero (TArray n k) = VElements (zero_elements n k)"
| "zero (TOther name) = VOther name"
| "zero (TCustom c t) = VCustom c (zero t)"
| "zero_field (TField name e m t) = Field name e m (zero t)"

text \<open>\<^verbatim>\<open>[]byte(s)\<close>\<close>
definition bytes_of :: "string \<Rightarrow> byte list" where
  "bytes_of s = map (\<lambda>c. of_nat (of_char c)) s"

text \<open>\<^verbatim>\<open>binary.PutUvarint\<close> and \<^verbatim>\<open>binary.PutVarint\<close>, as the bytes they put.\<close>
function PutUvarint :: "64 word \<Rightarrow> byte list" where
  "PutUvarint x =
     (if x \<ge> 0x80 then (ucast x OR 0x80) # PutUvarint (drop_bit 7 x) else [ucast x])"
  by pat_completeness auto
termination
  apply (relation "measure unat")
   apply simp
  apply (simp add: unat_drop_bit_eq word_le_nat_alt drop_bit_eq_div[where 'a=nat])
  done

definition PutVarint :: "64 word \<Rightarrow> byte list" where
  "PutVarint x =
     (let ux = push_bit 1 x;
          ux = (if sint x < 0 then NOT ux else ux)
      in PutUvarint ux)"

text \<open>\<^verbatim>\<open>binary.Write(digest, binary.BigEndian, v)\<close> of a fixed-size value.\<close>
definition big_endian :: "nat \<Rightarrow> 'a::len word \<Rightarrow> byte list" where
  "big_endian n w = map (\<lambda>i. ucast (drop_bit (8 * i) w)) (rev [0..<n])"

definition encode_fixed :: "fixed \<Rightarrow> byte list" where
  "encode_fixed v =
     (case v of
        FixedBool b \<Rightarrow> [if b then 1 else 0]
      | Fixed8 w \<Rightarrow> big_endian 1 w
      | Fixed16 w \<Rightarrow> big_endian 2 w
      | Fixed32 w \<Rightarrow> big_endian 4 w
      | Fixed64 w \<Rightarrow> big_endian 8 w)"

text \<open>The kind switch looks through the methods of a value's type.\<close>
fun strip :: "gvalue \<Rightarrow> gvalue" where
  "strip (VCustom c v) = strip v"
| "strip v = v"

text \<open>
  The two type assertions on \<^verbatim>\<open>value.Interface()\<close>; for a field of interface type that
  is the value the interface holds.
\<close>
fun method_of :: "gvalue \<Rightarrow> custom option" where
  "method_of (VCustom c v) = Some c"
| "method_of (VInterface (Some (VCustom c v))) = Some c"
| "method_of v = None"

text \<open>
  \<^verbatim>\<open>if value.Kind() == reflect.Interface\<close>: a nil interface is skipped (\<open>None\<close>),
  another is unpacked.
\<close>
fun unpack_interface :: "gvalue \<Rightarrow> gvalue option" where
  "unpack_interface (VInterface None) = None"
| "unpack_interface (VInterface (Some v)) = Some v"
| "unpack_interface v = Some v"

text \<open>
  \<^verbatim>\<open>if value.Kind() == reflect.Ptr\<close>: the pointee, or the zero value of the element type
  when the pointer is nil.
\<close>
fun unpack_pointer :: "gvalue \<Rightarrow> gvalue" where
  "unpack_pointer (VPtr t (Some v)) = v"
| "unpack_pointer (VPtr t None) = zero t"
| "unpack_pointer v = v"

text \<open>The cases of \<^verbatim>\<open>switch value.Kind()\<close> other than \<^verbatim>\<open>reflect.Struct\<close>.\<close>
definition emit_elements :: "string \<Rightarrow> elements \<Rightarrow> hash_state \<Rightarrow> error + hash_state" where
  "emit_elements name es digest =
     (case es of
        Ints xs \<Rightarrow> Inr (fold (\<lambda>x d. Write d (PutVarint x)) xs digest)
      | Uints xs \<Rightarrow> Inr (fold (\<lambda>x d. Write d (PutUvarint x)) xs digest)
      | Fixeds xs \<Rightarrow> Inr (Write digest (concat (map encode_fixed xs)))
      | Strings xs \<Rightarrow> Inr (fold (\<lambda>x d. Write d (bytes_of x)) xs digest)
      | Others elem \<Rightarrow> Inl (Errorf (''field '' @ name @ '': unsupported slice of '' @ elem)))"

definition emit_plain :: "string \<Rightarrow> gvalue \<Rightarrow> hash_state \<Rightarrow> error + hash_state" where
  "emit_plain name v digest =
     (case v of
        VString s \<Rightarrow> Inr (Write digest (bytes_of s))
      | VInt x \<Rightarrow> Inr (Write digest (PutVarint x))
      | VUint x \<Rightarrow> Inr (Write digest (PutUvarint x))
      | VFixed x \<Rightarrow> Inr (Write digest (encode_fixed x))
      | VElements es \<Rightarrow> emit_elements name es digest
      | VInterface _ \<Rightarrow> Inl (Errorf (''field '' @ name @ '': unsupported interface''))
      | VPtr _ _ \<Rightarrow> Inl (Errorf (''field '' @ name @ '': unsupported ptr''))
      | VOther kind \<Rightarrow> Inl (Errorf (''field '' @ name @ '': unsupported '' @ kind))
      | _ \<Rightarrow> Inl (Errorf (''field '' @ name @ '': unsupported'')))"

text \<open>Sizes that decrease along the recursion, also through the zero value of a type.\<close>
fun tsize :: "gtype \<Rightarrow> nat" and tfsize :: "tfield \<Rightarrow> nat" where
  "tsize (TStruct fs) = Suc (sum_list (map tfsize fs))"
| "tsize (TPtr t) = Suc (tsize t)"
| "tsize (TCustom c t) = Suc (tsize t)"
| "tsize TString = 0"
| "tsize TInt = 0"
| "tsize TUint = 0"
| "tsize (TFixed k) = 0"
| "tsize TInterface = 0"
| "tsize (TSlice k) = 0"
| "tsize (TArray n k) = 0"
| "tsize (TOther name) = 0"
| "tfsize (TField name e m t) = Suc (tsize t)"

fun vsize :: "gvalue \<Rightarrow> nat" and fsize :: "field \<Rightarrow> nat" where
  "vsize (VStruct fs) = Suc (sum_list (map fsize fs))"
| "vsize (VInterface (Some v)) = Suc (vsize v)"
| "vsize (VInterface None) = 0"
| "vsize (VPtr t (Some v)) = Suc (vsize v)"
| "vsize (VPtr t None) = Suc (tsize t)"
| "vsize (VCustom c v) = Suc (vsize v)"
| "vsize (VString s) = 0"
| "vsize (VInt x) = 0"
| "vsize (VUint x) = 0"
| "vsize (VFixed x) = 0"
| "vsize (VElements es) = 0"
| "vsize (VOther kind) = 0"
| "fsize (Field name e m v) = Suc (vsize v)"

lemma vsize_zero: "vsize (zero t) = tsize t" and fsize_zero_field: "fsize (zero_field tf) = tfsize tf"
  by (induction t and tf rule: zero_zero_field.induct) (simp_all add: comp_def cong: map_cong)

lemma vsize_strip: "vsize (strip v) \<le> vsize v"
  by (induction v rule: strip.induct) simp_all

lemma vsize_unpack_pointer: "vsize (unpack_pointer v) \<le> vsize v"
  by (induction v rule: unpack_pointer.induct) (simp_all add: vsize_zero)

lemma vsize_unpack_interface: "unpack_interface w = Some v \<Longrightarrow> vsize v \<le> vsize w"
  by (induction w rule: unpack_interface.induct) auto

lemma fsize_sorted: "sum_list (map fsize (sort_key fname fs)) = sum_list (map fsize fs)"
proof -
  have "mset (map fsize (sort_key fname fs)) = mset (map fsize fs)" by simp
  then show ?thesis by (metis sum_mset_sum_list)
qed

lemma fsize_field: "vsize (fvalue f) < fsize f"
  by (cases f) simp

definition only_structs :: panic where
  "only_structs = PanicMsg ''digitaltwin: reflection-based content-address supports only structs''"

lemma fsize_pos: "0 < fsize f"
  by (cases f) simp

lemma resolve_size:
  "unpack_interface (fvalue f) = Some v \<Longrightarrow> vsize (strip (unpack_pointer v)) < fsize f"
  using vsize_strip[of "unpack_pointer v"] vsize_unpack_pointer[of v]
    vsize_unpack_interface[of "fvalue f" v] fsize_field[of f]
  by simp

function reflectiveContentAddress :: "hash_state \<Rightarrow> gvalue \<Rightarrow> (error + hash_state) outcome"
  and emit_fields :: "hash_state \<Rightarrow> field list \<Rightarrow> (error + hash_state) outcome" where
  "reflectiveContentAddress digest node =
     (case node of
        VStruct fs \<Rightarrow> emit_fields digest (sort_key fname fs)
      | _ \<Rightarrow> Panic only_structs)"
| "emit_fields digest [] = Return (Inr digest)"
| "emit_fields digest (f # rest) =
     (if \<not> exported f then emit_fields digest rest
      else if is_marker f then emit_fields digest rest
      else
        (let digest = Write digest (bytes_of (fname f)) in
         case method_of (fvalue f) of
           Some (ContentAddresser call) \<Rightarrow>
             (case call of
                Panic p \<Rightarrow> Panic p
              | Return (written, Some err) \<Rightarrow>
                  Return (Inl (Wrapped (''content-addresser field '' @ fname f) err))
              | Return (written, None) \<Rightarrow> emit_fields (Write digest written) rest)
         | Some (BinaryMarshaler call) \<Rightarrow>
             (case call of
                Panic p \<Rightarrow> Panic p
              | Return (Inl err) \<Rightarrow> Return (Inl (Wrapped (''binary field '' @ fname f) err))
              | Return (Inr b) \<Rightarrow> emit_fields (Write digest b) rest)
         | None \<Rightarrow>
             (case unpack_interface (fvalue f) of
                None \<Rightarrow> emit_fields digest rest
              | Some v \<Rightarrow>
                  (let v = strip (unpack_pointer v) in
                   case v of
                     VStruct _ \<Rightarrow>
                       (case reflectiveContentAddress digest v of
                          Panic p \<Rightarrow> Panic p
                        | Return (Inl err) \<Rightarrow>
                            Return (Inl (Wrapped (''struct field '' @ fname f) err))
                        | Return (Inr digest) \<Rightarrow> emit_fields digest rest)
                   | _ \<Rightarrow>
                       (case emit_plain (fname f) v digest of
                          Inl err \<Rightarrow> Return (Inl err)
                        | Inr digest \<Rightarrow> emit_fields digest rest)))))"
  by pat_completeness auto
termination
  apply (relation "measure (\<lambda>x. case x of Inl (d, node) \<Rightarrow> vsize node
                                        | Inr (d, fs) \<Rightarrow> sum_list (map fsize fs))")
  apply (simp_all add: fsize_sorted fsize_pos)
  apply (metis resolve_size trans_less_add1)
  done

text \<open>
  A node value as \<^verbatim>\<open>ContentAddress\<close> sees it: the package path and the name of its
  type, and the value itself.
\<close>
record Value =
  PkgPath :: string
  Name :: string
  reflected :: gvalue

text \<open>\<^verbatim>\<open>func newNodeHash(node any) hash.Hash\<close>: the type preamble.\<close>
definition newNodeHash :: "Value \<Rightarrow> hash_state" where
  "newNodeHash node = Write (Write New (bytes_of (PkgPath node))) (bytes_of (Name node))"

text \<open>\<^verbatim>\<open>func ContentAddress(node Value) (NodeHash, error)\<close>\<close>
definition ContentAddress :: "digest \<Rightarrow> Value \<Rightarrow> (error + NodeHash) outcome" where
  "ContentAddress H node =
     (let h = newNodeHash node in
      case reflected node of
        VCustom (ContentAddresser call) _ \<Rightarrow>
          (case call of
             Panic p \<Rightarrow> Panic p
           | Return (written, Some err) \<Rightarrow> Return (Inl err)
           | Return (written, None) \<Rightarrow> Return (Inr (Sum H (Write h written))))
      | _ \<Rightarrow>
          (case reflectiveContentAddress h (strip (reflected node)) of
             Panic p \<Rightarrow> Panic p
           | Return (Inl err) \<Rightarrow> Return (Inl err)
           | Return (Inr h) \<Rightarrow> Return (Inr (Sum H h))))"

text \<open>A nil pointer field made to point at the zero value of its element type.\<close>
fun fill_nil :: "field \<Rightarrow> field" where
  "fill_nil (Field name e m (VPtr t None)) = Field name e m (VPtr t (Some (zero t)))"
| "fill_nil f = f"

section \<open>Properties of the forest hash\<close>

text \<open>
  \<^verbatim>\<open>sort.Slice\<close> is given the comparison \<^verbatim>\<open>bytes.Compare(a, b) < 0\<close>; it is the
  order of \<open>byte list\<close>, so the sorted result is the one \<^const>\<open>sort\<close> computes.
\<close>

lemma bytes_Compare_less: "bytes_Compare a b < 0 \<longleftrightarrow> a < b"
  by (induction a b rule: bytes_Compare.induct) auto

lemma fold_collect_keys:
  "fold (\<lambda>(ref, _) refs. refs @ [ref]) xs acc = acc @ map fst xs"
  by (induction xs arbitrary: acc) (auto split: prod.splits)

lemma fold_Write:
  "fold (\<lambda>ref h. Write h (f ref)) refs h0 = h0 @ concat (map f refs)"
  by (induction refs arbitrary: h0) (auto simp: Write_def)

lemma HashComponents_unfold:
  "HashComponents H xs = H (concat (map (index_ca xs) (sort (map fst xs))))"
  by (simp add: HashComponents_def fold_collect_keys fold_Write New_def Sum_def)

lemma index_ca_present:
  "k \<in> fst ` set xs \<Longrightarrow> index_ca xs k = the (map_of xs k)"
  by (auto simp: index_ca_def lookup_def map_of_eq_None_iff split: option.splits)

lemma HashComponents_refines:
  assumes "wf_map xs"
  shows "HashComponents H xs = ForestHash_spec H (map_of xs)"
proof -
  have keys: "sorted_list_of_set (dom (map_of xs)) = sort (map fst xs)"
    using assms
    by (simp add: wf_map_def dom_map_of_conv_image_fst sorted_list_of_set_sort_remdups
        distinct_remdups_id flip: set_map)
  have eq: "map (index_ca xs) (sort (map fst xs)) = map (\<lambda>k. the (map_of xs k)) (sort (map fst xs))"
    by (rule map_cong) (auto simp: index_ca_present)
  show ?thesis
    unfolding HashComponents_unfold ForestHash_spec_def keys eq ..
qed

lemma map_of_eq_of_set_eq:
  assumes "wf_map xs" "wf_map ys" "set xs = set ys"
  shows "map_of xs = map_of ys"
  using assms by (intro map_of_inject_set[THEN iffD2]) (auto simp: wf_map_def)

text \<open>
  Claim C5.  \<^verbatim>\<open>HashComponents\<close> depends only on the set of (ComponentID, ComponentHash)
  pairs and not on the order in which the map is traversed: two maps with the same
  entries hash identically, the value is the digest of the component hashes
  concatenated in ascending order of their component ids, and the empty map hashes to
  the digest of the empty input.
\<close>

theorem HashComponents_order_independent:
  assumes "wf_map xs" and "wf_map ys" and "set xs = set ys"
  shows "HashComponents H xs = HashComponents H ys
       \<and> HashComponents H xs = H (concat (map (\<lambda>k. the (map_of ys k)) (sorted_list_of_set (fst ` set ys))))
       \<and> HashComponents H [] = H []"
proof -
  have "map_of xs = map_of ys" using assms by (rule map_of_eq_of_set_eq)
  then show ?thesis
    using assms HashComponents_refines[of xs H] HashComponents_refines[of ys H]
    by (simp add: ForestHash_spec_def dom_map_of_conv_image_fst HashComponents_unfold)
qed

theorem HashComponents_order_independent_witness:
  "\<forall>H. wf_map [([2::byte], [20::byte]), ([1], [10])] \<and> wf_map [([1::byte], [10::byte]), ([2], [20])]
   \<and> HashComponents H [([2], [20]), ([1], [10])] = HashComponents H [([1], [10]), ([2], [20])]
   \<and> HashComponents H [([2], [20]), ([1], [10])] = H [10, 20]"
proof
  fix H
  show "wf_map [([2::byte], [20::byte]), ([1], [10])] \<and> wf_map [([1::byte], [10::byte]), ([2], [20])]
   \<and> HashComponents H [([2], [20]), ([1], [10])] = HashComponents H [([1], [10]), ([2], [20])]
   \<and> HashComponents H [([2], [20]), ([1], [10])] = H [10, 20]"
    using HashComponents_order_independent[of "[([2], [20]), ([1], [10])]" "[([1], [10]), ([2], [20])]" H]
    by (auto simp: wf_map_def)
qed

section \<open>Properties of the partial difference\<close>

lemma PartialDiff_partial_sets:
  "PartialDiff_partial s p (c, u) = (c', u') \<Longrightarrow>
     c' = c @ filter (\<lambda>k. lookup s k = None) (map fst p) \<and>
     u' = u @ map fst (filter (\<lambda>(k, h). \<exists>old. lookup s k = Some old \<and> old \<noteq> h) p)"
  by (induction s p "(c, u)" arbitrary: c u rule: PartialDiff_partial.induct)
     (auto split: option.splits if_splits)

lemma PartialDiff_dirty_filter:
  "PartialDiff_dirty s p d r = r @ filter (\<lambda>k. lookup s k \<noteq> None \<and> lookup p k = None) d"
  by (induction s p d r rule: PartialDiff_dirty.induct) (auto simp: Let_def)

text \<open>
  Claim C1.  For a full snapshot \<open>S\<close>, a partial snapshot \<open>P\<close> and dirty roots \<open>D\<close>,
  \<^verbatim>\<open>PartialDiff\<close> returns as created exactly the ids of \<open>P\<close> that are not keys of
  \<open>S\<close>, as updated exactly the ids in both whose hashes differ, and as removed the ids
  of \<open>D\<close> (in the order of \<open>D\<close>) that are keys of \<open>S\<close> but not of \<open>P\<close>; an id present
  in both with the same hash is in none of the three lists.
\<close>

theorem PartialDiff_exact:
  assumes "wf_map P"
  shows "case PartialDiff S P D of (created, updated, removed) \<Rightarrow>
           set created = {k \<in> fst ` set P. lookup S k = None}
         \<and> set updated = {k. \<exists>new old. lookup P k = Some new \<and> lookup S k = Some old \<and> old \<noteq> new}
         \<and> removed = filter (\<lambda>k. lookup S k \<noteq> None \<and> lookup P k = None) D
         \<and> distinct created \<and> distinct updated
         \<and> (\<forall>k h. lookup P k = Some h \<and> lookup S k = Some h
               \<longrightarrow> k \<notin> set created \<and> k \<notin> set updated \<and> k \<notin> set removed)"
proof -
  obtain c u where cu: "PartialDiff_partial S P ([], []) = (c, u)"
    by (cases "PartialDiff_partial S P ([], [])") auto
  from PartialDiff_partial_sets[OF cu]
  have c: "c = filter (\<lambda>k. lookup S k = None) (map fst P)"
    and u: "u = map fst (filter (\<lambda>(k, h). \<exists>old. lookup S k = Some old \<and> old \<noteq> h) P)"
    by simp_all
  have dP: "distinct (map fst P)" using assms by (simp add: wf_map_def)
  have mem: "\<And>k h. (k, h) \<in> set P \<longleftrightarrow> lookup P k = Some h"
    using dP by (auto simp: lookup_def)
  have setu: "set u = {k. \<exists>new old. lookup P k = Some new \<and> lookup S k = Some old \<and> old \<noteq> new}"
    unfolding u by (auto simp: mem[symmetric] image_iff) 
  have du: "distinct u"
    unfolding u using dP by (simp add: distinct_map_filter)
  have dc: "distinct c" unfolding c using dP by simp
  show ?thesis
    unfolding PartialDiff_def cu Let_def PartialDiff_dirty_filter
    using setu du dc by (auto simp: c)
qed

theorem PartialDiff_exact_witness:
  "wf_map [([2::byte], [21::byte]), ([3], [30]), ([1], [10])]
   \<and> (case PartialDiff [([1], [10]), ([2], [20])] [([2], [21]), ([3], [30]), ([1], [10])] [[1], [2], [4]]
      of (created, updated, removed) \<Rightarrow> created = [[3]] \<and> updated = [[2]] \<and> removed = [])
   \<and> (case PartialDiff [([1], [10]), ([2], [20])] [([3], [30])] [[1], [4]]
      of (created, updated, removed) \<Rightarrow> created = [[3]] \<and> updated = [] \<and> removed = [[1]])"
  using PartialDiff_exact[of "[([2], [21]), ([3], [30]), ([1], [10])]" "[([1], [10]), ([2], [20])]" "[[1], [2], [4]]"]
  by (simp add: PartialDiff_def lookup_def wf_map_def)

section \<open>Properties of the engine\<close>

lemma wf_map_store: "wf_map m \<Longrightarrow> wf_map (store k v m)"
  by (simp add: wf_map_def store_def distinct_update)

lemma wf_map_delete_key: "wf_map m \<Longrightarrow> wf_map (delete_key k m)"
  by (simp add: wf_map_def delete_key_def distinct_delete)

lemma map_of_store: "map_of (store k v m) = (map_of m)(k \<mapsto> v)"
  by (simp add: store_def update_conv')

lemma map_of_delete_key: "map_of (delete_key k m) = (map_of m)(k := None)"
  by (simp add: delete_key_def delete_conv')

lemma put_all_Nil [simp]: "put_all [] m = m"
  by (simp add: put_all_def)

lemma put_all_Cons [simp]: "put_all ((k, v) # es) m = put_all es (m(k \<mapsto> v))"
  by (simp add: put_all_def)

lemma drop_all_Nil [simp]: "drop_all [] m = m"
  by (simp add: drop_all_def)

lemma drop_all_Cons [simp]: "drop_all (k # ks) m = drop_all ks (m(k := None))"
  by (simp add: drop_all_def)

lemma Update_created_wf:
  "Update_created cs s = Return s' \<Longrightarrow> wf_map s \<Longrightarrow> wf_map s'"
  by (induction cs s rule: Update_created.induct) (auto simp: wf_map_store split: option.splits)

lemma Update_created_map:
  "Update_created cs s = Return s' \<Longrightarrow>
     map_of s' = put_all (map ref_of (List.map_filter created_Assembly cs)) (map_of s)"
proof (induction cs s rule: Update_created.induct)
  case (1 s)
  then show ?case by simp
next
  case (2 created rest s)
  show ?case
  proof (cases "created_Assembly created")
    case None
    with "2.prems" show ?thesis by simp
  next
    case (Some a)
    with "2.prems" have "Update_created rest (store (AssemblyID a) (AssemblyHash a) s) = Return s'"
      by simp
    from "2.IH"[OF Some this]
    have "map_of s' = put_all (map ref_of (List.map_filter created_Assembly rest))
                        (map_of (store (AssemblyID a) (AssemblyHash a) s))" .
    also have "\<dots> = put_all (map ref_of (a # List.map_filter created_Assembly rest)) (map_of s)"
      by (simp only: list.map ref_of_def put_all_Cons map_of_store)
    also have "a # List.map_filter created_Assembly rest = List.map_filter created_Assembly (created # rest)"
      by (simp add: Some)
    finally show ?thesis .
  qed
qed

lemma Update_updated_wf:
  "Update_updated cs s = Return s' \<Longrightarrow> wf_map s \<Longrightarrow> wf_map s'"
  by (induction cs s rule: Update_updated.induct) (auto simp: wf_map_store split: option.splits)

lemma Update_updated_map:
  "Update_updated cs s = Return s' \<Longrightarrow>
     map_of s' = put_all (map ref_of (List.map_filter updated_Assembly cs)) (map_of s)"
proof (induction cs s rule: Update_updated.induct)
  case (1 s)
  then show ?case by simp
next
  case (2 updated rest s)
  show ?case
  proof (cases "updated_Assembly updated")
    case None
    with "2.prems" show ?thesis by simp
  next
    case (Some a)
    with "2.prems" have "Update_updated rest (store (AssemblyID a) (AssemblyHash a) s) = Return s'"
      by simp
    from "2.IH"[OF Some this]
    have "map_of s' = put_all (map ref_of (List.map_filter updated_Assembly rest))
                        (map_of (store (AssemblyID a) (AssemblyHash a) s))" .
    also have "\<dots> = put_all (map ref_of (a # List.map_filter updated_Assembly rest)) (map_of s)"
      by (simp only: list.map ref_of_def put_all_Cons map_of_store)
    also have "a # List.map_filter updated_Assembly rest = List.map_filter updated_Assembly (updated # rest)"
      by (simp add: Some)
    finally show ?thesis .
  qed
qed

lemma Update_removed_wf: "wf_map s \<Longrightarrow> wf_map (Update_removed rs s)"
  by (induction rs s rule: Update_removed.induct) (auto simp: wf_map_delete_key)

lemma Update_removed_map:
  "map_of (Update_removed rs s) = drop_all (map removed_ID rs) (map_of s)"
proof (induction rs arbitrary: s)
  case Nil
  show ?case by simp
next
  case (Cons r rs)
  have "map_of (Update_removed (r # rs) s) = map_of (Update_removed rs (delete_key (removed_ID r) s))"
    by simp
  also have "\<dots> = drop_all (map removed_ID rs) (map_of (delete_key (removed_ID r) s))"
    by (rule Cons.IH)
  also have "\<dots> = drop_all (map removed_ID (r # rs)) (map_of s)"
    by (simp only: map_of_delete_key list.map drop_all_Cons)
  finally show ?case .
qed

lemma Update_refines:
  assumes "Update s changes = Return s'"
  shows "map_of s' = merge_spec (map_of s) changes" and "wf_map s \<Longrightarrow> wf_map s'"
proof -
  from assms obtain s1 s2 where
    1: "Update_created (Created changes) s = Return s1" and
    2: "Update_updated (Updated changes) s1 = Return s2" and
    3: "s' = Update_removed (Removed changes) s2"
    by (auto simp: Update_def split: outcome.splits)
  show "map_of s' = merge_spec (map_of s) changes"
    unfolding 3 merge_spec_def created_entries_def updated_entries_def
      Update_removed_map Update_updated_map[OF 2] Update_created_map[OF 1] ..
  show "wf_map s \<Longrightarrow> wf_map s'"
    unfolding 3 by (intro Update_removed_wf Update_updated_wf[OF 2] Update_created_wf[OF 1])
qed

lemma merge_spec_cong:
  "Created c = Created c' \<Longrightarrow> Updated c = Updated c' \<Longrightarrow> Removed c = Removed c' \<Longrightarrow>
     merge_spec m c = merge_spec m c'"
  by (simp add: merge_spec_def created_entries_def updated_entries_def)

lemma WhatChanged_success:
  assumes "WhatChanged H q compID now e = (Return (changes, None), e')"
  shows "\<exists>changes0 s'. Update (snapshot e) changes0 = Return s'
           \<and> GraphBefore changes0 = GraphHash H (snapshot e)
           \<and> changes = changes0\<lparr>GraphAfter := GraphHash H s'\<rparr>
           \<and> snapshot e' = s' \<and> taintedNodes e' = []"
  using assms
  by (auto simp: WhatChanged_def fetchTaintedAssemblies_def ClearTaints_def Let_def
      split: prod.splits outcome.splits sum.splits if_splits)

lemmas engine_eval = WhatChanged_def fetchTaintedAssemblies_def ClearTaints_def
  fetchPartialAssemblies_def lookup_def store_def delete_key_def PartialDiff_def
  ContainsAssembly_def Update_def GraphHash_def HashComponents_def index_ca_def
  GraphChanged_zero_def New_def Write_def Sum_def

lemma WhatChanged_error_keeps_snapshot:
  assumes "WhatChanged H q compID now e = (Return (changes, Some err), e')"
  shows "snapshot e' = snapshot e \<and> taintedNodes e' = []"
  using assms
  by (auto simp: WhatChanged_def fetchTaintedAssemblies_def ClearTaints_def Let_def
      split: prod.splits outcome.splits sum.splits if_splits)

text \<open>
  \<^verbatim>\<open>WhatChanged\<close> has no panic of its own: every created or updated id has its
  assembly in \<^verbatim>\<open>changedAssemblies\<close>, so \<^verbatim>\<open>Update\<close> never meets a nil assembly.  And
  when the sweep has fetched a rootless assembly and every taint has a component id,
  the call returns the sentinel error and keeps the snapshot.
\<close>

lemma sweep_rootless:
  "sweep s as (n, c, k) = (n', c', k') \<Longrightarrow> k' = k + length (filter (\<lambda>a. Roots a = []) as)"
proof (induction as arbitrary: n c k)
  case Nil
  then show ?case by simp
next
  case (Cons a as)
  let ?n = "store (AssemblyID a) (AssemblyHash a) n"
  let ?c = "if \<not> ContainsAssembly s a then store (AssemblyID a) a c else c"
  let ?k = "if length (Roots a) = 0 then k + 1 else k"
  from Cons.prems have "sweep s as (?n, ?c, ?k) = (n', c', k')" by (simp add: Let_def)
  from Cons.IH[OF this] show ?case by simp
qed

lemma sweep_wf:
  "sweep s as (n, c, k) = (n', c', k') \<Longrightarrow> wf_map n \<Longrightarrow> wf_map n'"
proof (induction as arbitrary: n c k)
  case Nil
  then show ?case by simp
next
  case (Cons a as)
  let ?n = "store (AssemblyID a) (AssemblyHash a) n"
  let ?c = "if \<not> ContainsAssembly s a then store (AssemblyID a) a c else c"
  let ?k = "if length (Roots a) = 0 then k + 1 else k"
  from Cons.prems have "sweep s as (?n, ?c, ?k) = (n', c', k')" by (simp add: Let_def)
  from Cons.IH[OF this] Cons.prems(2) show ?case by (simp add: wf_map_store)
qed

lemma lookup_store: "lookup (store k v m) k' = (if k' = k then Some v else lookup m k')"
  by (simp add: lookup_def store_def update_conv')

lemma sweep_changed:
  assumes "sweep s as (n, c, k) = (n', c', k')"
    and "\<And>x h. lookup n x = Some h \<Longrightarrow> lookup s x \<noteq> Some h \<Longrightarrow> lookup c x \<noteq> None"
  shows "lookup n' x = Some h \<Longrightarrow> lookup s x \<noteq> Some h \<Longrightarrow> lookup c' x \<noteq> None"
  using assms
proof (induction as arbitrary: n c k)
  case Nil
  then show ?case by simp
next
  case (Cons a as)
  let ?n = "store (AssemblyID a) (AssemblyHash a) n"
  let ?c = "if \<not> ContainsAssembly s a then store (AssemblyID a) a c else c"
  obtain k2 where sw: "sweep s as (?n, ?c, k2) = (n', c', k')"
    using Cons.prems(3) by (auto simp: Let_def split: if_splits)
  have inv: "\<And>x h. lookup ?n x = Some h \<Longrightarrow> lookup s x \<noteq> Some h \<Longrightarrow> lookup ?c x \<noteq> None"
    using Cons.prems(4)
    by (auto simp: lookup_store ContainsAssembly_def split: if_splits option.splits)
  from Cons.IH[OF Cons.prems(1,2) sw inv] show ?case .
qed

lemma Update_created_total:
  "list_all (\<lambda>c. created_Assembly c \<noteq> None) cs \<Longrightarrow> \<exists>s'. Update_created cs s = Return s'"
  by (induction cs arbitrary: s) (auto split: option.splits)

lemma Update_updated_total:
  "list_all (\<lambda>u. updated_Assembly u \<noteq> None) us \<Longrightarrow> \<exists>s'. Update_updated us s = Return s'"
  by (induction us arbitrary: s) (auto split: option.splits)

lemma PartialDiff_created_updated:
  assumes "PartialDiff s p d = (created, updated, removed)" and "wf_map p"
  shows "\<forall>x\<in>set created \<union> set updated. \<exists>h. lookup p x = Some h \<and> lookup s x \<noteq> Some h"
proof -
  obtain c u where cu: "PartialDiff_partial s p ([], []) = (c, u)"
    by (cases "PartialDiff_partial s p ([], [])") auto
  from assms(1) have cr: "created = c" and up: "updated = u"
    by (simp_all add: PartialDiff_def cu)
  from PartialDiff_partial_sets[OF cu]
  have c: "c = filter (\<lambda>k. lookup s k = None) (map fst p)"
    and u: "u = map fst (filter (\<lambda>(k, h). \<exists>old. lookup s k = Some old \<and> old \<noteq> h) p)"
    by simp_all
  have mem: "\<And>k h. (k, h) \<in> set p \<Longrightarrow> lookup p k = Some h"
    using assms(2) by (simp add: lookup_def wf_map_def)
  show ?thesis
    unfolding cr up c u using mem by fastforce
qed

lemma Update_total:
  assumes "list_all (\<lambda>c. created_Assembly c \<noteq> None) (Created changes)"
    and "list_all (\<lambda>u. updated_Assembly u \<noteq> None) (Updated changes)"
  shows "\<exists>s'. Update s changes = Return s'"
proof -
  from Update_created_total[OF assms(1)] obtain s1 where
    1: "Update_created (Created changes) s = Return s1" by blast
  from Update_updated_total[OF assms(2)] obtain s2 where
    2: "Update_updated (Updated changes) s1 = Return s2" by blast
  show ?thesis by (simp add: Update_def 1 2)
qed

lemma WhatChanged_panics_in_fetch_only:
  assumes "fst (WhatChanged H q compID now e) = Panic p"
  shows "fst (fetchTaintedAssemblies q e) = Panic p"
proof (cases "fetchTaintedAssemblies q e")
  case (Pair r e1)
  show ?thesis
  proof (cases r)
    case (Panic p')
    with Pair assms show ?thesis by (simp add: WhatChanged_def)
  next
    case (Return x)
    show ?thesis
    proof (cases x)
      case (Inl err)
      with Pair Return assms show ?thesis by (simp add: WhatChanged_def)
    next
      case (Inr ta)
      obtain taints assemblies where ta: "ta = (taints, assemblies)" by (cases ta)
      obtain n c k where sw: "sweep (snapshot e1) assemblies ([], [], 0) = (n, c, k)"
        by (cases "sweep (snapshot e1) assemblies ([], [], 0)") auto
      have wfn: "wf_map n" using sweep_wf[OF sw] by (simp add: wf_map_def)
      have ch: "\<And>x h. lookup n x = Some h \<Longrightarrow> lookup (snapshot e1) x \<noteq> Some h \<Longrightarrow> lookup c x \<noteq> None"
        using sweep_changed[OF sw] by (simp add: lookup_def)
      show ?thesis
      proof (cases "dirty_roots compID taints")
        case (Inl err)
        with Pair Return Inr ta sw assms show ?thesis by (simp add: WhatChanged_def)
      next
        case (Inr ds)
        obtain cr up rm where pd: "PartialDiff (snapshot e1) n ds = (cr, up, rm)"
          by (cases "PartialDiff (snapshot e1) n ds") auto
        from PartialDiff_created_updated[OF pd wfn] ch
        have some: "\<forall>x\<in>set cr \<union> set up. lookup c x \<noteq> None" by blast
        let ?changes = "GraphChanged_zero
            \<lparr>GraphBefore := GraphHash H (snapshot e1), Timestamp := now,
             Created := map (\<lambda>cid. AssemblyCreated (lookup c cid)) cr,
             Updated := map (\<lambda>cid. AssemblyUpdated (index_ca (snapshot e1) cid) (lookup c cid)) up,
             Removed := map (\<lambda>cid. AssemblyRemoved cid (index_ca (snapshot e1) cid)) rm\<rparr>"
        have "\<exists>s'. Update (snapshot e1) ?changes = Return s'"
          using some by (intro Update_total) (auto simp: list_all_iff)
        then obtain s' where up': "Update (snapshot e1) ?changes = Return s'" by blast
        from Pair Return \<open>x = Inr ta\<close> ta sw Inr pd up' assms show ?thesis
          by (simp add: WhatChanged_def Let_def split: if_splits)
      qed
    qed
  qed
qed

lemma WhatChanged_rootless_sentinel:
  assumes f: "fetchTaintedAssemblies q e = (Return (Inr (taints, assemblies)), e1)"
    and r: "\<exists>a\<in>set assemblies. Roots a = []"
    and d: "dirty_roots compID taints = Inr ds"
  shows "\<exists>changes. WhatChanged H q compID now e
            = (Return (changes, Some errFoundRootlessAssemblies), e1)
         \<and> snapshot e1 = snapshot e"
proof -
  obtain n c k where sw: "sweep (snapshot e1) assemblies ([], [], 0) = (n, c, k)"
    by (cases "sweep (snapshot e1) assemblies ([], [], 0)") auto
  have "filter (\<lambda>a. Roots a = []) assemblies \<noteq> []" using r by (simp add: filter_empty_conv)
  then have k: "k > 0" using sweep_rootless[OF sw] by simp
  obtain cr up rm where pd: "PartialDiff (snapshot e1) n ds = (cr, up, rm)"
    by (cases "PartialDiff (snapshot e1) n ds") auto
  have s: "snapshot e1 = snapshot e"
    using f by (auto simp: fetchTaintedAssemblies_def Let_def split: prod.splits outcome.splits sum.splits)
  show ?thesis
    using f sw d pd k s by (simp add: WhatChanged_def Let_def)
qed

text \<open>
  A call on an engine without tainted nodes fetches nothing and reports no change,
  whatever the backend holds.  Since every call drains the tainted nodes, this is what
  the call after a failed one does.
\<close>

lemma WhatChanged_without_taints:
  assumes "taintedNodes e = []"
  shows "WhatChanged H q compID now e
           = (Return (\<lparr>GraphBefore = GraphHash H (snapshot e), Created = [], Updated = [],
                        Removed = [], GraphAfter = GraphHash H (snapshot e),
                        Timestamp = now\<rparr>, None), e)"
  using assms
  by (simp add: WhatChanged_def fetchTaintedAssemblies_def ClearTaints_def
      fetchPartialAssemblies_def PartialDiff_def Update_def GraphChanged_zero_def)

lemma WhatChanged_after_error:
  assumes "WhatChanged H q compID now e = (Return (changes, Some err), e')"
  shows "WhatChanged H q' compID' now' e'
           = (Return (\<lparr>GraphBefore = GraphHash H (snapshot e), Created = [], Updated = [],
                        Removed = [], GraphAfter = GraphHash H (snapshot e),
                        Timestamp = now'\<rparr>, None), e')"
  using WhatChanged_error_keeps_snapshot[OF assms]
    WhatChanged_without_taints[of e' H q' compID' now']
  by simp

text \<open>
  Claim C3.  When \<^verbatim>\<open>WhatChanged\<close> returns a nil error, the emitted \<^verbatim>\<open>GraphBefore\<close> is
  the forest hash of the snapshot the engine held before the call, and \<^verbatim>\<open>GraphAfter\<close>
  is the forest hash of that snapshot with every created entry added, every updated
  entry replaced and every removed entry deleted, which is also the snapshot the engine
  holds afterwards.
\<close>

theorem WhatChanged_graph_hashes:
  assumes "WhatChanged H q compID now e = (Return (changes, None), e')"
    and "wf_map (snapshot e)"
  shows "GraphBefore changes = ForestHash_spec H (map_of (snapshot e))
       \<and> GraphAfter changes = ForestHash_spec H (merge_spec (map_of (snapshot e)) changes)
       \<and> map_of (snapshot e') = merge_spec (map_of (snapshot e)) changes"
proof -
  from WhatChanged_success[OF assms(1)] obtain changes0 s' where
    up: "Update (snapshot e) changes0 = Return s'" and
    before: "GraphBefore changes0 = GraphHash H (snapshot e)" and
    ch: "changes = changes0\<lparr>GraphAfter := GraphHash H s'\<rparr>" and
    e': "snapshot e' = s'"
    by blast
  have m: "merge_spec (map_of (snapshot e)) changes = merge_spec (map_of (snapshot e)) changes0"
    by (rule merge_spec_cong) (simp_all add: ch)
  have wf: "wf_map s'" using Update_refines(2)[OF up assms(2)] .
  have ms: "map_of s' = merge_spec (map_of (snapshot e)) changes"
    using Update_refines(1)[OF up] m by simp
  show ?thesis
    using before ms HashComponents_refines[OF assms(2), of H] HashComponents_refines[OF wf, of H]
    by (simp add: ch e' GraphHash_def)
qed

theorem WhatChanged_graph_hashes_witness:
  "\<forall>H. wf_map [([1::byte], [10::byte])]
     \<and> WhatChanged H
         (\<lambda>t. Inr ([Parsed \<lparr>AssemblyID = [2], AssemblyHash = [20], Roots = [[5]]\<rparr>], None))
         (\<lambda>t. Inr [2]) 7
         \<lparr>snapshot = [([1], [10])], taintedNodes = [([5], \<lparr>Label = ''A'', ContentAddress = [5]\<rparr>)]\<rparr>
       = (Return (\<lparr>GraphBefore = H [10],
                    Created = [AssemblyCreated (Some \<lparr>AssemblyID = [2], AssemblyHash = [20], Roots = [[5]]\<rparr>)],
                    Updated = [], Removed = [], GraphAfter = H [10, 20], Timestamp = 7\<rparr>, None),
          \<lparr>snapshot = [([1], [10]), ([2], [20])], taintedNodes = []\<rparr>)
     \<and> H [10] = ForestHash_spec H [[1] \<mapsto> [10]]
     \<and> H [10, 20] = ForestHash_spec H [[1] \<mapsto> [10], [2] \<mapsto> [20]]"
proof
  fix H :: digest
  let ?q = "\<lambda>t::RawNode. Inr ([Parsed \<lparr>AssemblyID = [2], AssemblyHash = [20], Roots = [[5]]\<rparr>], None)
              :: error + (record_result list \<times> error option)"
  let ?c = "\<lambda>t::RawNode. Inr [2] :: error + ComponentID"
  let ?e = "\<lparr>snapshot = [([1], [10])], taintedNodes = [([5], \<lparr>Label = ''A'', ContentAddress = [5]\<rparr>)]\<rparr>"
  let ?changes = "\<lparr>GraphBefore = H [10],
                    Created = [AssemblyCreated (Some \<lparr>AssemblyID = [2], AssemblyHash = [20], Roots = [[5]]\<rparr>)],
                    Updated = [], Removed = [], GraphAfter = H [10, 20], Timestamp = 7\<rparr>"
  let ?e' = "\<lparr>snapshot = [([1], [10]), ([2], [20])], taintedNodes = []\<rparr>"
  have wf: "wf_map (snapshot ?e)" by (simp add: wf_map_def)
  have run: "WhatChanged H ?q ?c 7 ?e = (Return (?changes, None), ?e')"
    by (simp add: engine_eval)
  have m: "merge_spec (map_of (snapshot ?e)) ?changes = [[1] \<mapsto> [10], [2] \<mapsto> [20]]"
    by (simp add: merge_spec_def created_entries_def updated_entries_def ref_of_def)
  from WhatChanged_graph_hashes[OF run wf]
  have "H [10] = ForestHash_spec H [[1] \<mapsto> [10]]"
    and "H [10, 20] = ForestHash_spec H [[1] \<mapsto> [10], [2] \<mapsto> [20]]"
    unfolding m by simp_all
  with wf run
  show "wf_map [([1::byte], [10::byte])]
     \<and> WhatChanged H ?q ?c 7 ?e = (Return (?changes, None), ?e')
     \<and> H [10] = ForestHash_spec H [[1] \<mapsto> [10]]
     \<and> H [10, 20] = ForestHash_spec H [[1] \<mapsto> [10], [2] \<mapsto> [20]]"
    by simp
qed


section \<open>Properties of the relationship assertions\<close>

lemma OneToOne_specialised:
  "AssertOneToOne a = Some x \<Longrightarrow>
     OneToOne a TypeOf s t w = (Return (fst (x s t w)), snd (x s t w))"
  by (simp add: OneToOne_def split: prod.splits)

lemma OneToOne_first_retraction_fails:
  "AssertOneToOne a = None \<Longrightarrow> RetractEdges a s (TypeOf t) w = ((n, Some e), w1) \<Longrightarrow>
     OneToOne a TypeOf s t w = (Return (Some (Wrapped ''retract edges from'' e)), w1)"
  by (simp add: OneToOne_def)

lemma OneToOne_second_retraction_fails:
  "AssertOneToOne a = None \<Longrightarrow> RetractEdges a s (TypeOf t) w = ((n1, None), w1) \<Longrightarrow>
   n1 \<le> 1 \<Longrightarrow> RetractEdges a t (TypeOf s) w1 = ((n2, Some e), w2) \<Longrightarrow>
     OneToOne a TypeOf s t w = (Return (Some (Wrapped ''retract edges to'' e)), w2)"
  by (simp add: OneToOne_def)

text \<open>
  Claim C8.  On a writer without a specialised asserter, \<^verbatim>\<open>OneToOne(s, t)\<close> retracts
  the edges of \<open>s\<close> to nodes of the type of \<open>t\<close>, then the edges of \<open>t\<close> to nodes of the
  type of \<open>s\<close>, then asserts the edge from \<open>s\<close> to \<open>t\<close>, each on the state the previous
  call left.  With \<open>n1\<close> and \<open>n2\<close> the counts the two retractions report, it panics with
  the inconsistent-graph error exactly when one of them exceeds one (the first is
  examined before the second retraction is made), and otherwise returns what the
  assertion of the edge returns.
\<close>

theorem OneToOne_retract_retract_assert:
  assumes "AssertOneToOne a = None"
    and "RetractEdges a s (TypeOf t) w = ((n1, None), w1)"
    and "RetractEdges a t (TypeOf s) w1 = ((n2, None), w2)"
    and "AssertEdge a s t w2 = (err, w3)"
  shows "OneToOne a TypeOf s t w =
           (if n1 > 1
            then (Panic (PanicErr (InconsistentGraph ''one-to-one'' n1 ''from source'')), w1)
            else if n2 > 1
            then (Panic (PanicErr (InconsistentGraph ''one-to-one'' n2 ''to target'')), w2)
            else (Return (map_option (Wrapped ''assert edge'') err), w3))
       \<and> ((\<exists>p. fst (OneToOne a TypeOf s t w) = Panic p) \<longleftrightarrow> n1 > 1 \<or> n2 > 1)"
  using assms
  by (cases err) (simp_all add: OneToOne_def newGraphIntegrityError_def)

theorem OneToOne_retract_retract_assert_witness:
  "AssertOneToOne (recordingWriter 1 :: ((string, string) call list, string, string) GraphWriter) = None
   \<and> OneToOne (recordingWriter 1) (\<lambda>v. ''Node'') ''A'' ''B'' []
       = (Return None,
          [CallRetractEdges ''A'' ''Node'', CallRetractEdges ''B'' ''Node'', CallAssertEdge ''A'' ''B''])
   \<and> OneToOne (recordingWriter 2) (\<lambda>v. ''Node'') ''A'' ''B'' []
       = (Panic (PanicErr (InconsistentGraph ''one-to-one'' 2 ''from source'')),
          [CallRetractEdges ''A'' ''Node''])"
  using OneToOne_retract_retract_assert[of "recordingWriter 1" "''A''" "\<lambda>v. ''Node''" "''B''" "[]" 1
          "[CallRetractEdges ''A'' ''Node'']" 1
          "[CallRetractEdges ''A'' ''Node'', CallRetractEdges ''B'' ''Node'']" None
          "[CallRetractEdges ''A'' ''Node'', CallRetractEdges ''B'' ''Node'', CallAssertEdge ''A'' ''B'']"]
        OneToOne_retract_retract_assert[of "recordingWriter 2" "''A''" "\<lambda>v. ''Node''" "''B''" "[]" 2
          "[CallRetractEdges ''A'' ''Node'']" 2
          "[CallRetractEdges ''A'' ''Node'', CallRetractEdges ''B'' ''Node'']" None
          "[CallRetractEdges ''A'' ''Node'', CallRetractEdges ''B'' ''Node'', CallAssertEdge ''A'' ''B'']"]
  by (simp add: recordingWriter_def)

section \<open>Properties of the assembly graph\<close>

lemma take_drop_write:
  assumes l: "length xs = length (take n (drop k a))"
  shows "take n (drop k (take k a @ xs @ drop (k + length xs) a)) = xs"
proof (cases "k \<le> length a")
  case True
  have d: "drop k (take k a @ xs @ drop (k + length xs) a) = xs @ drop (k + length xs) a"
    using True by simp
  have lx: "length xs = min n (length a - k)" using l by (simp add: min.commute)
  show ?thesis
  proof (cases "n \<le> length a - k")
    case True
    then have "length xs = n" using lx by simp
    then show ?thesis unfolding d by simp
  next
    case False
    then have "length xs = length a - k" using lx by simp
    then have "drop (k + length xs) a = []" using True by simp
    moreover have "length xs \<le> n" using lx by simp
    ultimately show ?thesis unfolding d by simp
  qed
next
  case False
  then have "xs = []" using l by simp
  then show ?thesis using False by simp
qed

lemma slice_read_write:
  assumes "length xs = length (slice_read h s)"
  shows "slice_read (slice_write s xs h) s = xs"
proof -
  have "arrays (slice_write s xs h) (arr s)
          = take (off s) (arrays h (arr s)) @ xs @ drop (off s + length xs) (arrays h (arr s))"
    by (simp add: slice_write_def Let_def)
  moreover have "length xs = length (take (len s) (drop (off s) (arrays h (arr s))))"
    using assms by (simp add: slice_read_def)
  ultimately show ?thesis
    unfolding slice_read_def using take_drop_write[of xs "len s" "off s" "arrays h (arr s)"]
    by presburger
qed

lemma sort_Slice_read: "slice_read (sort_Slice s h) s = sort (slice_read h s)"
  by (simp add: sort_Slice_def slice_read_write)

lemma AssemblyID_value:
  "fst (AssemblyGraph_AssemblyID H a h) = H (concat (sort (slice_read h (Root a))))"
  by (simp add: AssemblyGraph_AssemblyID_def Let_def sort_Slice_read fold_Write New_def Sum_def)

lemma AssemblyID_heap:
  "snd (AssemblyGraph_AssemblyID H a h) = sort_Slice (Root a) h"
  by (simp add: AssemblyGraph_AssemblyID_def Let_def)

lemma sort_eq_of_mset_eq:
  fixes xs ys :: "'a::linorder list"
  assumes "mset xs = mset ys" shows "sort xs = sort ys"
  using properties_for_sort[of "sort ys" xs] assms by simp

lemma AssemblyID_permutation:
  "mset (slice_read h (Root a)) = mset (slice_read h' (Root b)) \<Longrightarrow>
     fst (AssemblyGraph_AssemblyID H a h) = fst (AssemblyGraph_AssemblyID H b h')"
  unfolding AssemblyID_value by (drule sort_eq_of_mset_eq) simp

lemmas heap_eval = slice_read_def slice_write_def sort_Slice_def empty_heap_def
  AssemblyGraph_AssemblyID_def AssemblyGraph_Roots_def New_def Write_def Sum_def Let_def



text \<open>
  \<^verbatim>\<open>AssemblyHash\<close> sorts the neighbour slices as well, each where it lies.  When none
  of them shares the array of the roots, the roots stay as \<^verbatim>\<open>AssemblyID\<close> left them.
\<close>

lemma sort_Slice_frame:
  "slicemaps (sort_Slice s h) = slicemaps h \<and> nodemaps (sort_Slice s h) = nodemaps h
   \<and> (\<forall>x. x \<noteq> arr s \<longrightarrow> arrays (sort_Slice s h) x = arrays h x)
   \<and> (len s = 0 \<longrightarrow> arrays (sort_Slice s h) = arrays h)"
  by (auto simp: sort_Slice_def slice_write_def slice_read_def Let_def)

lemma index_slice_in_map:
  "index_slice m k = nil_slice \<or> (k, index_slice m k) \<in> set m"
  by (auto simp: index_slice_def lookup_def dest: map_of_SomeD split: option.splits)

lemma AssemblyHash_loop_keeps_roots:
  assumes "\<forall>(k, s) \<in> set (slicemap_at h (Neighbours a)). len s = 0 \<or> arr s \<noteq> r"
  shows "arrays (snd (AssemblyHash_loop a ns (d, h))) r = arrays h r"
  using assms
proof (induction ns arbitrary: d h)
  case Nil
  then show ?case by simp
next
  case (Cons n ns)
  let ?s = "index_slice (slicemap_at h (Neighbours a)) n"
  let ?h = "sort_Slice ?s h"
  have s: "len ?s = 0 \<or> arr ?s \<noteq> r"
    using index_slice_in_map[of "slicemap_at h (Neighbours a)" n] Cons.prems
    by (auto simp: nil_slice_def)
  have keep: "arrays ?h r = arrays h r"
    using s sort_Slice_frame[of ?s h] by auto
  have sm: "slicemap_at ?h (Neighbours a) = slicemap_at h (Neighbours a)"
    using sort_Slice_frame[of ?s h] by (auto simp: slicemap_at_def split: option.splits)
  have "arrays (snd (AssemblyHash_loop a ns (fold (\<lambda>to d. Write d to) (slice_read ?h ?s) (Write d n), ?h))) r
          = arrays ?h r"
    by (rule Cons.IH) (use Cons.prems sm in simp)
  then show ?case using keep by (simp add: Let_def)
qed

lemma AssemblyHash_heap:
  "snd (AssemblyGraph_AssemblyHash H a h)
     = snd (AssemblyHash_loop a
              (sort (fold (\<lambda>(n, _) nodes. nodes @ [n])
                       (nodes_at (sort_Slice (Root a) h) (Vertices a)) []))
              (Write New (fst (AssemblyGraph_AssemblyID H a h)), sort_Slice (Root a) h))"
  by (simp add: AssemblyGraph_AssemblyHash_def AssemblyGraph_AssemblyID_def Let_def
      split: prod.splits)

lemma AssemblyHash_sorts_roots:
  assumes "\<forall>(k, s) \<in> set (slicemap_at h (Neighbours a)). len s = 0 \<or> arr s \<noteq> arr (Root a)"
  shows "slice_read (snd (AssemblyGraph_AssemblyHash H a h)) (AssemblyGraph_Roots a)
           = sort (slice_read h (AssemblyGraph_Roots a))"
proof -
  let ?h = "sort_Slice (Root a) h"
  have sm: "slicemap_at ?h (Neighbours a) = slicemap_at h (Neighbours a)"
    using sort_Slice_frame[of "Root a" h] by (auto simp: slicemap_at_def split: option.splits)
  have "arrays (snd (AssemblyGraph_AssemblyHash H a h)) (arr (Root a)) = arrays ?h (arr (Root a))"
    unfolding AssemblyHash_heap
    by (rule AssemblyHash_loop_keeps_roots) (use assms sm in simp)
  then have "slice_read (snd (AssemblyGraph_AssemblyHash H a h)) (Root a) = slice_read ?h (Root a)"
    by (simp add: slice_read_def)
  then show ?thesis by (simp add: AssemblyGraph_Roots_def sort_Slice_read)
qed

text \<open>
  Claim C10.  \<^verbatim>\<open>AssemblyID\<close> sorts the receiver's root slice where it lies: in the heap
  the call leaves, the slice that \<^verbatim>\<open>Roots()\<close> returns reads as the sorted roots, not
  as the roots in the order they had before.  So does \<^verbatim>\<open>AssemblyHash\<close>, which calls
  \<^verbatim>\<open>AssemblyID\<close> first, for a graph whose neighbour slices lie in arrays of their own.
\<close>

theorem AssemblyID_sorts_roots_in_place:
  "slice_read (snd (AssemblyGraph_AssemblyID H a h)) (AssemblyGraph_Roots a)
     = sort (slice_read h (AssemblyGraph_Roots a))
   \<and> ((\<forall>(k, s) \<in> set (slicemap_at h (Neighbours a)). len s = 0 \<or> arr s \<noteq> arr (Root a))
        \<longrightarrow> slice_read (snd (AssemblyGraph_AssemblyHash H a h)) (AssemblyGraph_Roots a)
              = sort (slice_read h (AssemblyGraph_Roots a)))"
  using AssemblyHash_sorts_roots[of h a H]
  by (simp add: AssemblyID_heap AssemblyGraph_Roots_def sort_Slice_read)

theorem AssemblyID_sorts_roots_in_place_witness:
  "\<forall>H. (let h = (empty_heap :: unit heap)
                   \<lparr>arrays := (\<lambda>_. [])(0 := [[2], [1], [3]], 1 := [[3], [1]]),
                    nodemaps := (\<lambda>_. [])(0 := [([2], ()), ([1], ()), ([3], ())]),
                    slicemaps := (\<lambda>_. [])(0 := [([2], \<lparr>arr = 1, off = 0, len = 2, cap = 2\<rparr>)]),
                    fresh := 2\<rparr>;
            a = \<lparr>Root = \<lparr>arr = 0, off = 0, len = 3, cap = 3\<rparr>, Vertices = Some 0,
                 Neighbours = Some 0\<rparr>
        in (\<forall>(k, s) \<in> set (slicemap_at h (Neighbours a)). len s = 0 \<or> arr s \<noteq> arr (Root a))
         \<and> slice_read h (AssemblyGraph_Roots a) = [[2], [1], [3]]
         \<and> slice_read (snd (AssemblyGraph_AssemblyID H a h)) (AssemblyGraph_Roots a)
             = [[1], [2], [3]]
         \<and> slice_read (snd (AssemblyGraph_AssemblyHash H a h)) (AssemblyGraph_Roots a)
             = [[1], [2], [3]])"
proof
  fix H :: digest
  let ?h = "(empty_heap :: unit heap)
                   \<lparr>arrays := (\<lambda>_. [])(0 := [[2], [1], [3]], 1 := [[3], [1]]),
                    nodemaps := (\<lambda>_. [])(0 := [([2], ()), ([1], ()), ([3], ())]),
                    slicemaps := (\<lambda>_. [])(0 := [([2], \<lparr>arr = 1, off = 0, len = 2, cap = 2\<rparr>)]),
                    fresh := 2\<rparr>"
  let ?a = "\<lparr>Root = \<lparr>arr = 0, off = 0, len = 3, cap = 3\<rparr>, Vertices = Some 0,
             Neighbours = Some 0\<rparr>"
  have sep: "\<forall>(k, s) \<in> set (slicemap_at ?h (Neighbours ?a)). len s = 0 \<or> arr s \<noteq> arr (Root ?a)"
    by (simp add: slicemap_at_def empty_heap_def)
  have before: "slice_read ?h (AssemblyGraph_Roots ?a) = [[2], [1], [3]]"
    by (simp add: slice_read_def AssemblyGraph_Roots_def empty_heap_def)
  have sorted: "sort (slice_read ?h (AssemblyGraph_Roots ?a)) = [[1], [2], [3]]"
    unfolding before by simp
  note th = AssemblyID_sorts_roots_in_place[of H ?a ?h]
  from th[THEN conjunct1]
  have r1: "slice_read (snd (AssemblyGraph_AssemblyID H ?a ?h)) (AssemblyGraph_Roots ?a)
              = [[1], [2], [3]]"
    unfolding sorted .
  from th[THEN conjunct2] sep
  have "slice_read (snd (AssemblyGraph_AssemblyHash H ?a ?h)) (AssemblyGraph_Roots ?a)
          = sort (slice_read ?h (AssemblyGraph_Roots ?a))"
    by blast
  then have r2: "slice_read (snd (AssemblyGraph_AssemblyHash H ?a ?h)) (AssemblyGraph_Roots ?a)
              = [[1], [2], [3]]"
    unfolding sorted .
  from sep before r1 r2
  show "let h = ?h; a = ?a
        in (\<forall>(k, s) \<in> set (slicemap_at h (Neighbours a)). len s = 0 \<or> arr s \<noteq> arr (Root a))
         \<and> slice_read h (AssemblyGraph_Roots a) = [[2], [1], [3]]
         \<and> slice_read (snd (AssemblyGraph_AssemblyID H a h)) (AssemblyGraph_Roots a)
             = [[1], [2], [3]]
         \<and> slice_read (snd (AssemblyGraph_AssemblyHash H a h)) (AssemblyGraph_Roots a)
             = [[1], [2], [3]]"
    unfolding Let_def by blast
qed

lemma AssemblyID_reorders_example:
  "slice_read (snd (AssemblyGraph_AssemblyID H
           \<lparr>Root = \<lparr>arr = 0, off = 0, len = 3, cap = 3\<rparr>, Vertices = None, Neighbours = None\<rparr>
           ((empty_heap :: unit heap)\<lparr>arrays := (\<lambda>_. [])(0 := [[2], [1], [3]]), fresh := 1\<rparr>)))
         \<lparr>arr = 0, off = 0, len = 3, cap = 3\<rparr> = [[1], [2], [3]]"
  by (simp add: heap_eval)

section \<open>Properties of the assembly builder\<close>

lemma obind_Return_iff:
  "obind m f = Return y \<longleftrightarrow> (\<exists>x. m = Return x \<and> f x = Return y)"
  by (cases m) (simp_all add: obind_def)

lemma contents_kept:
  assumes "graph_inside F0 F1 h1 g" and "region_kept F0 F1 h1 h"
  shows "AssemblyGraph_contents h g = AssemblyGraph_contents h1 g"
proof -
  have r: "slice_read h (Root g) = slice_read h1 (Root g)"
    using assms by (auto simp: graph_inside_def region_kept_def slice_read_def)
  have v: "nodes_at h (Vertices g) = nodes_at h1 (Vertices g)"
    using assms by (auto simp: graph_inside_def region_kept_def nodes_at_def split: option.splits)
  have sm: "slicemap_at h (Neighbours g) = slicemap_at h1 (Neighbours g)"
    using assms by (auto simp: region_kept_def slicemap_at_def split: option.splits)
  have n: "map (\<lambda>(k, s). (k, slice_read h s)) (slicemap_at h1 (Neighbours g))
         = map (\<lambda>(k, s). (k, slice_read h1 s)) (slicemap_at h1 (Neighbours g))"
    using assms
    by (intro map_cong refl)
       (auto simp: graph_inside_def region_kept_def slice_read_def list_all_iff)
  show ?thesis
    by (simp add: AssemblyGraph_contents_def AssemblyGraph_Roots_def AssemblyGraph_Nodes_def r v sm n)
qed

lemma Nodes_loop_frame:
  "Nodes_loop ca ns p h = Return h' \<Longrightarrow>
     arrays h' = arrays h \<and> slicemaps h' = slicemaps h \<and> fresh h' = fresh h
     \<and> (\<forall>x. Some x \<noteq> p \<longrightarrow> nodemaps h' x = nodemaps h x)"
proof (induction ns arbitrary: h)
  case Nil
  then show ?case by simp
next
  case (Cons n ns)
  from Cons.prems obtain k hm where
    hm: "nodemap_store p k n h = Return hm" and rest: "Nodes_loop ca ns p hm = Return h'"
    by (auto simp: obind_Return_iff)
  from hm have "arrays hm = arrays h \<and> slicemaps hm = slicemaps h \<and> fresh hm = fresh h
     \<and> (\<forall>x. Some x \<noteq> p \<longrightarrow> nodemaps hm x = nodemaps h x)"
    by (auto simp: nodemap_store_def split: option.splits)
  with Cons.IH[OF rest] show ?case by simp
qed

lemma Roots_loop_frame:
  "Roots_loop ca s i ns h = Return h' \<Longrightarrow>
     nodemaps h' = nodemaps h \<and> slicemaps h' = slicemaps h \<and> fresh h' = fresh h
     \<and> (\<forall>x. x \<noteq> arr s \<longrightarrow> arrays h' x = arrays h x)
     \<and> (len s = 0 \<longrightarrow> arrays h' = arrays h)"
proof (induction ns arbitrary: h i)
  case Nil
  then show ?case by simp
next
  case (Cons n ns)
  from Cons.prems obtain x hm where
    hm: "slice_set s i x h = Return hm" and rest: "Roots_loop ca s (Suc i) ns hm = Return h'"
    by (auto simp: obind_Return_iff)
  from hm have "nodemaps hm = nodemaps h \<and> slicemaps hm = slicemaps h \<and> fresh hm = fresh h
     \<and> (\<forall>x. x \<noteq> arr s \<longrightarrow> arrays hm x = arrays h x) \<and> len s \<noteq> 0"
    by (auto simp: slice_set_def split: if_splits)
  with Cons.IH[OF rest] show ?case by simp
qed

lemma copyCheck_fields:
  "copyCheck self b = Return b' \<Longrightarrow>
     roots b' = roots b \<and> nodes b' = nodes b \<and> neighbours b' = neighbours b"
  by (auto simp: copyCheck_def split: if_splits)

lemma Builder_Nodes_keeps:
  assumes k: "region_kept F0 F1 h1 h" and o: "builder_outside F0 F1 b"
    and run: "Builder_Nodes ca self ns (b, h) = Return (b', h')"
  shows "region_kept F0 F1 h1 h' \<and> builder_outside F0 F1 b' \<and> roots b' = roots b"
proof -
  from run obtain b1 where cc: "copyCheck self b = Return b1"
    and body: "(let (b, h) =
            (if nodes b1 = None
             then (b1\<lparr>nodes := Some (fresh h)\<rparr>,
                   h\<lparr>nodemaps := (nodemaps h)(fresh h := []), fresh := Suc (fresh h)\<rparr>)
             else (b1, h))
      in obind (Nodes_loop ca ns (nodes b) h) (\<lambda>h. Return (b, h))) = Return (b', h')"
    by (auto simp: Builder_Nodes_def obind_Return_iff)
  note f = copyCheck_fields[OF cc]
  show ?thesis
  proof (cases "nodes b1")
    case None
    let ?h = "h\<lparr>nodemaps := (nodemaps h)(fresh h := []), fresh := Suc (fresh h)\<rparr>"
    from body None have loop: "Nodes_loop ca ns (Some (fresh h)) ?h = Return h'"
      and b': "b' = b1\<lparr>nodes := Some (fresh h)\<rparr>"
      by (auto simp: obind_Return_iff)
    from Nodes_loop_frame[OF loop] k show ?thesis
      using o f by (auto simp: region_kept_def builder_outside_def b')
  next
    case (Some p)
    from body Some have loop: "Nodes_loop ca ns (Some p) h = Return h'" and b': "b' = b1"
      by (auto simp: obind_Return_iff)
    have "p < F0 \<or> F1 \<le> p"
      using o f Some by (auto simp: builder_outside_def split: option.splits)
    with Nodes_loop_frame[OF loop] k show ?thesis
      using o f by (auto simp: region_kept_def builder_outside_def b')
  qed
qed

lemma Builder_Connect_keeps:
  assumes k: "region_kept F0 F1 h1 h" and o: "builder_outside F0 F1 b"
    and run: "Builder_Connect ca self source target (b, h) = Return (b', h')"
  shows "region_kept F0 F1 h1 h' \<and> builder_outside F0 F1 b'"
proof -
  from run obtain b1 b2 h2 fr t where cc: "copyCheck self b = Return b1"
    and nd: "Builder_Nodes ca self [source, target] (b1, h) = Return (b2, h2)"
    and tail: "(let (b, h) =
            (if neighbours b2 = None
             then (b2\<lparr>neighbours := Some (fresh h2)\<rparr>,
                   h2\<lparr>setmaps := (setmaps h2)(fresh h2 := []), fresh := Suc (fresh h2)\<rparr>)
             else (b2, h2))
      in case neighbours b of
           None \<Rightarrow> Panic nil_map_assignment
         | Some q \<Rightarrow>
             (let h = (if lookup (setmaps h q) fr = None
                       then h\<lparr>hashsets := (hashsets h)(fresh h := []),
                              setmaps := (setmaps h)(q := store fr (fresh h) (setmaps h q)),
                              fresh := Suc (fresh h)\<rparr>
                       else h)
              in case lookup (setmaps h q) fr of
                   None \<Rightarrow> Panic nil_map_assignment
                 | Some r \<Rightarrow>
                     Return (b, h\<lparr>hashsets := (hashsets h)(r := store t () (hashsets h r))\<rparr>)))
        = Return (b', h')"
    by (auto simp: Builder_Connect_def obind_Return_iff)
  from tail have rest: "arrays h' = arrays h2 \<and> nodemaps h' = nodemaps h2 \<and> slicemaps h' = slicemaps h2
               \<and> fresh h2 \<le> fresh h' \<and> roots b' = roots b2 \<and> nodes b' = nodes b2"
    by (auto simp: Let_def split: prod.splits option.splits if_splits)
  have o1: "builder_outside F0 F1 b1"
    using o copyCheck_fields[OF cc] by (simp add: builder_outside_def)
  from Builder_Nodes_keeps[OF k o1 nd] rest show ?thesis
    by (auto simp: region_kept_def builder_outside_def)
qed

lemma Builder_Roots_keeps:
  assumes k: "region_kept F0 F1 h1 h" and o: "builder_outside F0 F1 b"
    and run: "Builder_Roots ca self root (b, h) = Return (b', h')"
  shows "region_kept F0 F1 h1 h' \<and> builder_outside F0 F1 b'"
proof -
  from run obtain b1 b2 h2 where cc: "copyCheck self b = Return b1"
    and nd: "Builder_Nodes ca self root (b1, h) = Return (b2, h2)"
    and body: "(let (b, h) =
            (if len (roots b2) > length root
             then (b2\<lparr>roots := (roots b2)\<lparr>len := length root\<rparr>\<rparr>, h2)
             else (let (s, h) = make_slice (length root) (length root) h2
                   in (b2\<lparr>roots := s\<rparr>, h)))
      in obind (Roots_loop ca (roots b) 0 root h) (\<lambda>h. Return (b, h))) = Return (b', h')"
    by (auto simp: Builder_Roots_def obind_Return_iff)
  have o1: "builder_outside F0 F1 b1"
    using o copyCheck_fields[OF cc] by (simp add: builder_outside_def)
  from Builder_Nodes_keeps[OF k o1 nd]
  have k2: "region_kept F0 F1 h1 h2" and o2: "builder_outside F0 F1 b2" by simp_all
  show ?thesis
  proof (cases "len (roots b2) > length root")
    case True
    let ?s = "(roots b2)\<lparr>len := length root\<rparr>"
    from body True have loop: "Roots_loop ca ?s 0 root h2 = Return h'"
      and b': "b' = b2\<lparr>roots := ?s\<rparr>"
      by (auto simp: obind_Return_iff)
    have out: "arr (roots b2) < F0 \<or> F1 \<le> arr (roots b2)"
      using o2 True by (auto simp: builder_outside_def)
    from Roots_loop_frame[OF loop] k2 out o2 show ?thesis
      by (auto simp: region_kept_def builder_outside_def b')
  next
    case False
    let ?s = "\<lparr>arr = fresh h2, off = 0, len = length root, cap = length root\<rparr>"
    let ?h = "h2\<lparr>arrays := (arrays h2)(fresh h2 := replicate (length root) zeroAddress),
                  fresh := Suc (fresh h2)\<rparr>"
    from body False have loop: "Roots_loop ca ?s 0 root ?h = Return h'"
      and b': "b' = b2\<lparr>roots := ?s\<rparr>"
      by (auto simp: obind_Return_iff make_slice_def)
    from Roots_loop_frame[OF loop] k2 o2 show ?thesis
      by (auto simp: region_kept_def builder_outside_def b')
  qed
qed

lemma Builder_Reset_keeps:
  assumes k: "region_kept F0 F1 h1 h" and run: "Builder_Reset (b, h) = (b', h')"
  shows "region_kept F0 F1 h1 h' \<and> builder_outside F0 F1 b'"
  using assms by (auto simp: Builder_Reset_def builder_outside_def nil_slice_def)

lemma fold_nodemap_store:
  "arrays (fold (\<lambda>(k, v) h. h\<lparr>nodemaps := (nodemaps h)(p := store k v (nodemaps h p))\<rparr>) es h)
       = arrays h
   \<and> slicemaps (fold (\<lambda>(k, v) h. h\<lparr>nodemaps := (nodemaps h)(p := store k v (nodemaps h p))\<rparr>) es h)
       = slicemaps h
   \<and> fresh (fold (\<lambda>(k, v) h. h\<lparr>nodemaps := (nodemaps h)(p := store k v (nodemaps h p))\<rparr>) es h)
       = fresh h
   \<and> (\<forall>x. x \<noteq> p \<longrightarrow>
         nodemaps (fold (\<lambda>(k, v) h. h\<lparr>nodemaps := (nodemaps h)(p := store k v (nodemaps h p))\<rparr>) es h) x
           = nodemaps h x)"
  by (induction es arbitrary: h) (auto split: prod.splits)

lemma hintNodes_keeps:
  assumes k: "region_kept F0 F1 h1 h" and o: "builder_outside F0 F1 b"
    and run: "hintNodes (b, h) = (b', h')"
  shows "region_kept F0 F1 h1 h' \<and> builder_outside F0 F1 b'"
proof -
  let ?h = "h\<lparr>nodemaps := (nodemaps h)(fresh h := []), fresh := Suc (fresh h)\<rparr>"
  from run have b': "b' = b\<lparr>nodes := Some (fresh h)\<rparr>"
    and h': "h' = fold (\<lambda>(k, v) h'. h'\<lparr>nodemaps := (nodemaps h')(fresh h := store k v (nodemaps h' (fresh h)))\<rparr>)
                (nodes_at ?h (nodes b)) ?h"
    by (auto simp: hintNodes_def Let_def)
  from fold_nodemap_store[of "fresh h" "nodes_at ?h (nodes b)" ?h] k o show ?thesis
    unfolding h'[symmetric] by (auto simp: region_kept_def builder_outside_def b')
qed

lemma Builder_Hint_keeps:
  assumes k: "region_kept F0 F1 h1 h" and o: "builder_outside F0 F1 b"
    and run: "Builder_Hint self n e (b, h) = Return (b', h')"
  shows "region_kept F0 F1 h1 h' \<and> builder_outside F0 F1 b'"
proof -
  from run obtain b1 where cc: "copyCheck self b = Return b1"
    and body: "(if int (length (nodes_at h (nodes b1))) < n then hintNodes (b1, h) else (b1, h))
                 = (b', h')"
    by (auto simp: Builder_Hint_def obind_Return_iff Let_def split: if_splits prod.splits)
  have o1: "builder_outside F0 F1 b1"
    using o copyCheck_fields[OF cc] by (simp add: builder_outside_def)
  show ?thesis
  proof (cases "int (length (nodes_at h (nodes b1))) < n")
    case True
    with body have "hintNodes (b1, h) = (b', h')" by simp
    from hintNodes_keeps[OF k o1 this] show ?thesis .
  next
    case False
    with body k o1 show ?thesis by simp
  qed
qed

lemma mutate_keeps:
  assumes "region_kept F0 F1 h1 h" and "builder_outside F0 F1 b"
    and "mutate ca self m (b, h) = Return (b', h')"
  shows "region_kept F0 F1 h1 h' \<and> builder_outside F0 F1 b'"
  using assms
  by (cases m)
     (auto dest: Builder_Nodes_keeps Builder_Connect_keeps Builder_Roots_keeps
        Builder_Reset_keeps Builder_Hint_keeps)

lemma mutate_all_keeps:
  assumes "region_kept F0 F1 h1 h" and "builder_outside F0 F1 b"
    and "mutate_all ca self ms (b, h) = Return (b', h')"
  shows "region_kept F0 F1 h1 h'"
  using assms
proof (induction ms arbitrary: b h)
  case Nil
  then show ?case by simp
next
  case (Cons m ms)
  from Cons.prems(3) obtain b2 h2 where
    1: "mutate ca self m (b, h) = Return (b2, h2)" and
    2: "mutate_all ca self ms (b2, h2) = Return (b', h')"
    by (auto simp: obind_Return_iff)
  from mutate_keeps[OF Cons.prems(1,2) 1] Cons.IH[OF _ _ 2] show ?case by blast
qed

lemma set_store_subset: "set (store k v m) \<subseteq> insert (k, v) (set m)"
  unfolding store_def by (induction m) auto

lemma list_all_store:
  "P (k, v) \<Longrightarrow> list_all P m \<Longrightarrow> list_all P (store k v m)"
  using set_store_subset[of k v m] by (auto simp: list_all_iff)

lemma index_slice_cases:
  "index_slice m k = nil_slice \<or> (k, index_slice m k) \<in> set m"
  by (auto simp: index_slice_def lookup_def split: option.splits dest: map_of_SomeD)

lemma append_slice_fresh:
  assumes "append_slice s x h = (s', h')"
  shows "fresh h \<le> fresh h' \<and> slicemaps h' = slicemaps h
       \<and> ((arr s' = arr s \<and> len s < cap s \<and> fresh h' = fresh h) \<or> (arr s' = fresh h \<and> fresh h' = Suc (fresh h)))"
  using assms by (auto simp: append_slice_def Let_def split: if_splits)

lemma Assemble_inner_inside:
  assumes "list_all (\<lambda>(k, s). lo \<le> arr s \<and> arr s < fresh h) (slicemaps h p)" and "lo \<le> fresh h"
  shows "list_all (\<lambda>(k, s). lo \<le> arr s \<and> arr s < fresh (Assemble_inner p key es h))
           (slicemaps (Assemble_inner p key es h) p)
       \<and> fresh h \<le> fresh (Assemble_inner p key es h)"
  using assms
proof (induction es arbitrary: h)
  case Nil
  then show ?case by simp
next
  case (Cons e es)
  obtain n u where e: "e = (n, u)" by (cases e)
  obtain s' ha where ap: "append_slice (index_slice (slicemaps h p) key) n h = (s', ha)"
    by (cases "append_slice (index_slice (slicemaps h p) key) n h")
  let ?hb = "ha\<lparr>slicemaps := (slicemaps ha)(p := store key s' (slicemaps ha p))\<rparr>"
  note af = append_slice_fresh[OF ap]
  have s'in: "lo \<le> arr s' \<and> arr s' < fresh ha"
  proof (cases "len (index_slice (slicemaps h p) key) < cap (index_slice (slicemaps h p) key)")
    case True
    then have "index_slice (slicemaps h p) key \<noteq> nil_slice" by (auto simp: nil_slice_def)
    with index_slice_cases[of "slicemaps h p" key]
    have "(key, index_slice (slicemaps h p) key) \<in> set (slicemaps h p)" by simp
    with Cons.prems(1) have "lo \<le> arr (index_slice (slicemaps h p) key)
        \<and> arr (index_slice (slicemaps h p) key) < fresh h"
      by (auto simp: list_all_iff)
    with af True show ?thesis by auto
  next
    case False
    with af Cons.prems(2) show ?thesis by auto
  qed
  have old: "list_all (\<lambda>(k, s). lo \<le> arr s \<and> arr s < fresh ha) (slicemaps ha p)"
    using Cons.prems(1) af by (auto simp: list_all_iff)
  have inv: "list_all (\<lambda>(k, s). lo \<le> arr s \<and> arr s < fresh ?hb) (slicemaps ?hb p)"
    using list_all_store[of "\<lambda>(k, s). lo \<le> arr s \<and> arr s < fresh ha" key s' "slicemaps ha p"]
      s'in old by simp
  have lo: "lo \<le> fresh ?hb" using af Cons.prems(2) by simp
  from Cons.IH[OF inv lo] af show ?case
    by (simp add: e ap)
qed

lemma Assemble_inner_other:
  "slicemaps (Assemble_inner p key es h) q = slicemaps h q" if "q \<noteq> p"
  using that
proof (induction es arbitrary: h)
  case Nil
  then show ?case by simp
next
  case (Cons e es)
  obtain n u where e: "e = (n, u)" by (cases e)
  obtain s' ha where ap: "append_slice (index_slice (slicemaps h p) key) n h = (s', ha)"
    by (cases "append_slice (index_slice (slicemaps h p) key) n h")
  from Cons.IH[OF Cons.prems] append_slice_fresh[OF ap] show ?case
    by (simp add: e ap Cons.prems)
qed

lemma Assemble_outer_inside:
  assumes "list_all (\<lambda>(k, s). lo \<le> arr s \<and> arr s < fresh h) (slicemaps h p)" and "lo \<le> fresh h"
  shows "list_all (\<lambda>(k, s). lo \<le> arr s \<and> arr s < fresh (Assemble_outer p es h))
           (slicemaps (Assemble_outer p es h) p)
       \<and> fresh h \<le> fresh (Assemble_outer p es h)"
  using assms
proof (induction es arbitrary: h)
  case Nil
  then show ?case by simp
next
  case (Cons e es)
  obtain k r where e: "e = (k, r)" by (cases e)
  let ?s = "\<lparr>arr = fresh h, off = 0, len = 0, cap = length (hashsets h r)\<rparr>"
  let ?ha = "h\<lparr>arrays := (arrays h)(fresh h := replicate (length (hashsets h r)) zeroAddress),
               fresh := Suc (fresh h)\<rparr>"
  let ?hb = "?ha\<lparr>slicemaps := (slicemaps ?ha)(p := store k ?s (slicemaps ?ha p))\<rparr>"
  let ?hc = "Assemble_inner p k (hashsets ?hb r) ?hb"
  have old: "list_all (\<lambda>(k, s). lo \<le> arr s \<and> arr s < fresh ?ha) (slicemaps ?ha p)"
    using Cons.prems(1) by (auto simp: list_all_iff)
  have inv: "list_all (\<lambda>(k, s). lo \<le> arr s \<and> arr s < fresh ?hb) (slicemaps ?hb p)"
    using list_all_store[of "\<lambda>(k, s). lo \<le> arr s \<and> arr s < fresh ?ha" k ?s "slicemaps ?ha p"]
      old Cons.prems(2) by simp
  have lo: "lo \<le> fresh ?hb" using Cons.prems(2) by simp
  note inner = Assemble_inner_inside[OF inv lo, of k "hashsets ?hb r"]
  have lo': "lo \<le> fresh ?hc" using inner lo by linarith
  from Cons.IH[OF conjunct1[OF inner] lo'] inner
  have "list_all (\<lambda>(k, s). lo \<le> arr s \<and> arr s < fresh (Assemble_outer p es ?hc))
           (slicemaps (Assemble_outer p es ?hc) p)
       \<and> fresh h \<le> fresh (Assemble_outer p es ?hc)"
    by simp
  then show ?case
    by (simp add: e make_slice_def Let_def)
qed

lemma Assemble_roots_inside:
  assumes "Assemble_roots b h = (r, h')"
  shows "fresh h \<le> fresh h' \<and> (len r = 0 \<or> (fresh h \<le> arr r \<and> arr r < fresh h'))"
  using assms
  by (auto simp: Assemble_roots_def make_slice_def copy_slice_def slice_write_def Let_def
      nil_slice_def split: if_splits)

lemma Assemble_vertices_inside:
  assumes "Assemble_vertices b h = (v, h')"
  shows "fresh h \<le> fresh h' \<and> (case v of None \<Rightarrow> True | Some p \<Rightarrow> fresh h \<le> p \<and> p < fresh h')"
proof (cases "length (nodes_at h (nodes b)) \<noteq> 0")
  case True
  let ?h = "h\<lparr>nodemaps := (nodemaps h)(fresh h := []), fresh := Suc (fresh h)\<rparr>"
  from assms True have v: "v = Some (fresh h)"
    and h': "h' = fold (\<lambda>(k, n) h'. h'\<lparr>nodemaps := (nodemaps h')(fresh h := store k n (nodemaps h' (fresh h)))\<rparr>)
                   (nodes_at h (nodes b)) ?h"
    by (auto simp: Assemble_vertices_def Let_def)
  from fold_nodemap_store[of "fresh h" "nodes_at h (nodes b)" ?h] show ?thesis
    unfolding h'[symmetric] by (simp add: v)
next
  case False
  with assms show ?thesis by (auto simp: Assemble_vertices_def)
qed

lemma Assemble_neighbours_inside:
  assumes "Assemble_neighbours b h = (n, h')"
  shows "fresh h \<le> fresh h'
       \<and> list_all (\<lambda>(k, s). fresh h \<le> arr s \<and> arr s < fresh h') (slicemap_at h' n)"
proof (cases "length (setmap_at h (neighbours b)) \<noteq> 0")
  case True
  let ?h = "h\<lparr>slicemaps := (slicemaps h)(fresh h := []), fresh := Suc (fresh h)\<rparr>"
  from assms True have n: "n = Some (fresh h)"
    and h': "h' = Assemble_outer (fresh h) (setmap_at h (neighbours b)) ?h"
    by (auto simp: Assemble_neighbours_def Let_def)
  have "list_all (\<lambda>(k, s). fresh h \<le> arr s \<and> arr s < fresh ?h) (slicemaps ?h (fresh h))"
    by simp
  moreover have "fresh h \<le> fresh ?h" by simp
  ultimately show ?thesis
    using Assemble_outer_inside[of "fresh h" ?h "fresh h" "setmap_at h (neighbours b)"]
    unfolding h'[symmetric] by (simp add: n slicemap_at_def)
next
  case False
  with assms show ?thesis by (auto simp: Assemble_neighbours_def slicemap_at_def)
qed

lemma Assemble_inside:
  assumes al: "builder_allocated b h" and as: "Assemble b h = (g, h1)"
  shows "graph_inside (fresh h) (fresh h1) h1 g \<and> builder_outside (fresh h) (fresh h1) b
       \<and> region_kept (fresh h) (fresh h1) h1 h1"
proof -
  obtain r ha where 1: "Assemble_roots b h = (r, ha)" by (cases "Assemble_roots b h")
  obtain v hb where 2: "Assemble_vertices b ha = (v, hb)" by (cases "Assemble_vertices b ha")
  obtain n hc where 3: "Assemble_neighbours b hb = (n, hc)" by (cases "Assemble_neighbours b hb")
  from as have g: "g = \<lparr>Root = r, Vertices = v, Neighbours = n\<rparr>" and h1: "h1 = hc"
    by (simp_all add: Assemble_def 1 2 3)
  note i1 = Assemble_roots_inside[OF 1] and i2 = Assemble_vertices_inside[OF 2]
    and i3 = Assemble_neighbours_inside[OF 3]
  have "list_all (\<lambda>(k, s). fresh h \<le> arr s \<and> arr s < fresh hc) (slicemap_at hc n)"
    using i1 i2 i3 by (auto simp: list_all_iff)
  then have "graph_inside (fresh h) (fresh h1) h1 g"
    using i1 i2 i3 by (auto simp: graph_inside_def g h1 split: option.splits)
  moreover have "builder_outside (fresh h) (fresh h1) b"
    using al by (auto simp: builder_allocated_def builder_outside_def split: option.splits)
  moreover have "region_kept (fresh h) (fresh h1) h1 h1"
    by (simp add: region_kept_def)
  ultimately show ?thesis by blast
qed

lemma Builder_Nodes_allocated:
  assumes al: "builder_allocated b h"
    and run: "Builder_Nodes ca self ns (b, h) = Return (b', h')"
  shows "builder_allocated b' h' \<and> fresh h \<le> fresh h' \<and> roots b' = roots b"
proof -
  from run obtain b1 where cc: "copyCheck self b = Return b1"
    and body: "(let (b, h) =
            (if nodes b1 = None
             then (b1\<lparr>nodes := Some (fresh h)\<rparr>,
                   h\<lparr>nodemaps := (nodemaps h)(fresh h := []), fresh := Suc (fresh h)\<rparr>)
             else (b1, h))
      in obind (Nodes_loop ca ns (nodes b) h) (\<lambda>h. Return (b, h))) = Return (b', h')"
    by (auto simp: Builder_Nodes_def obind_Return_iff)
  note f = copyCheck_fields[OF cc]
  show ?thesis
  proof (cases "nodes b1")
    case None
    let ?h = "h\<lparr>nodemaps := (nodemaps h)(fresh h := []), fresh := Suc (fresh h)\<rparr>"
    from body None have loop: "Nodes_loop ca ns (Some (fresh h)) ?h = Return h'"
      and b': "b' = b1\<lparr>nodes := Some (fresh h)\<rparr>"
      by (auto simp: obind_Return_iff)
    from Nodes_loop_frame[OF loop] al f show ?thesis
      by (auto simp: builder_allocated_def b')
  next
    case (Some p)
    from body Some have loop: "Nodes_loop ca ns (Some p) h = Return h'" and b': "b' = b1"
      by (auto simp: obind_Return_iff)
    from Nodes_loop_frame[OF loop] al f Some show ?thesis
      by (auto simp: builder_allocated_def b' split: option.splits)
  qed
qed

lemma Builder_Connect_allocated:
  assumes al: "builder_allocated b h"
    and run: "Builder_Connect ca self source target (b, h) = Return (b', h')"
  shows "builder_allocated b' h'"
proof -
  from run obtain b1 b2 h2 fr t where cc: "copyCheck self b = Return b1"
    and nd: "Builder_Nodes ca self [source, target] (b1, h) = Return (b2, h2)"
    and tail: "(let (b, h) =
            (if neighbours b2 = None
             then (b2\<lparr>neighbours := Some (fresh h2)\<rparr>,
                   h2\<lparr>setmaps := (setmaps h2)(fresh h2 := []), fresh := Suc (fresh h2)\<rparr>)
             else (b2, h2))
      in case neighbours b of
           None \<Rightarrow> Panic nil_map_assignment
         | Some q \<Rightarrow>
             (let h = (if lookup (setmaps h q) fr = None
                       then h\<lparr>hashsets := (hashsets h)(fresh h := []),
                              setmaps := (setmaps h)(q := store fr (fresh h) (setmaps h q)),
                              fresh := Suc (fresh h)\<rparr>
                       else h)
              in case lookup (setmaps h q) fr of
                   None \<Rightarrow> Panic nil_map_assignment
                 | Some r \<Rightarrow>
                     Return (b, h\<lparr>hashsets := (hashsets h)(r := store t () (hashsets h r))\<rparr>)))
        = Return (b', h')"
    by (auto simp: Builder_Connect_def obind_Return_iff)
  from tail have rest: "fresh h2 \<le> fresh h' \<and> roots b' = roots b2 \<and> nodes b' = nodes b2"
    by (auto simp: Let_def split: prod.splits option.splits if_splits)
  have a1: "builder_allocated b1 h"
    using al copyCheck_fields[OF cc] by (simp add: builder_allocated_def)
  from Builder_Nodes_allocated[OF a1 nd] rest show ?thesis
    by (auto simp: builder_allocated_def split: option.splits)
qed

lemma Builder_Roots_allocated:
  assumes al: "builder_allocated b h"
    and run: "Builder_Roots ca self root (b, h) = Return (b', h')"
  shows "builder_allocated b' h'"
proof -
  from run obtain b1 b2 h2 where cc: "copyCheck self b = Return b1"
    and nd: "Builder_Nodes ca self root (b1, h) = Return (b2, h2)"
    and body: "(let (b, h) =
            (if len (roots b2) > length root
             then (b2\<lparr>roots := (roots b2)\<lparr>len := length root\<rparr>\<rparr>, h2)
             else (let (s, h) = make_slice (length root) (length root) h2
                   in (b2\<lparr>roots := s\<rparr>, h)))
      in obind (Roots_loop ca (roots b) 0 root h) (\<lambda>h. Return (b, h))) = Return (b', h')"
    by (auto simp: Builder_Roots_def obind_Return_iff)
  have a1: "builder_allocated b1 h"
    using al copyCheck_fields[OF cc] by (simp add: builder_allocated_def)
  from Builder_Nodes_allocated[OF a1 nd] have a2: "builder_allocated b2 h2" by simp
  show ?thesis
  proof (cases "len (roots b2) > length root")
    case True
    let ?s = "(roots b2)\<lparr>len := length root\<rparr>"
    from body True have loop: "Roots_loop ca ?s 0 root h2 = Return h'"
      and b': "b' = b2\<lparr>roots := ?s\<rparr>"
      by (auto simp: obind_Return_iff)
    from Roots_loop_frame[OF loop] a2 True show ?thesis
      by (auto simp: builder_allocated_def b' split: option.splits)
  next
    case False
    let ?s = "\<lparr>arr = fresh h2, off = 0, len = length root, cap = length root\<rparr>"
    let ?h = "h2\<lparr>arrays := (arrays h2)(fresh h2 := replicate (length root) zeroAddress),
                  fresh := Suc (fresh h2)\<rparr>"
    from body False have loop: "Roots_loop ca ?s 0 root ?h = Return h'"
      and b': "b' = b2\<lparr>roots := ?s\<rparr>"
      by (auto simp: obind_Return_iff make_slice_def)
    from Roots_loop_frame[OF loop] a2 show ?thesis
      by (auto simp: builder_allocated_def b' split: option.splits)
  qed
qed

lemma hintNodes_allocated:
  assumes al: "builder_allocated b h" and run: "hintNodes (b, h) = (b', h')"
  shows "builder_allocated b' h'"
proof -
  let ?h = "h\<lparr>nodemaps := (nodemaps h)(fresh h := []), fresh := Suc (fresh h)\<rparr>"
  from run have b': "b' = b\<lparr>nodes := Some (fresh h)\<rparr>"
    and h': "h' = fold (\<lambda>(k, v) h'. h'\<lparr>nodemaps := (nodemaps h')(fresh h := store k v (nodemaps h' (fresh h)))\<rparr>)
                (nodes_at ?h (nodes b)) ?h"
    by (auto simp: hintNodes_def Let_def)
  from fold_nodemap_store[of "fresh h" "nodes_at ?h (nodes b)" ?h] al show ?thesis
    unfolding h'[symmetric] by (auto simp: builder_allocated_def b')
qed

lemma Builder_Hint_allocated:
  assumes al: "builder_allocated b h"
    and run: "Builder_Hint self n e (b, h) = Return (b', h')"
  shows "builder_allocated b' h'"
proof -
  from run obtain b1 where cc: "copyCheck self b = Return b1"
    and body: "(if int (length (nodes_at h (nodes b1))) < n then hintNodes (b1, h) else (b1, h))
                 = (b', h')"
    by (auto simp: Builder_Hint_def obind_Return_iff Let_def split: if_splits prod.splits)
  have a1: "builder_allocated b1 h"
    using al copyCheck_fields[OF cc] by (simp add: builder_allocated_def)
  show ?thesis
  proof (cases "int (length (nodes_at h (nodes b1))) < n")
    case True
    with body have "hintNodes (b1, h) = (b', h')" by simp
    from hintNodes_allocated[OF a1 this] show ?thesis .
  next
    case False
    with body a1 show ?thesis by simp
  qed
qed

lemma mutate_allocated:
  assumes "builder_allocated b h" and "mutate ca self m (b, h) = Return (b', h')"
  shows "builder_allocated b' h'"
proof (cases m)
  case (CallNodes ns)
  with assms Builder_Nodes_allocated[of b h ca self ns b' h'] show ?thesis by simp
next
  case (CallConnect s t)
  with assms Builder_Connect_allocated[of b h ca self s t b' h'] show ?thesis by simp
next
  case (CallRoots rs)
  with assms Builder_Roots_allocated[of b h ca self rs b' h'] show ?thesis by simp
next
  case CallReset
  with assms show ?thesis
    by (auto simp: Builder_Reset_def builder_allocated_def nil_slice_def)
next
  case (CallHint n e)
  with assms Builder_Hint_allocated[of b h self n e b' h'] show ?thesis by simp
qed

lemma mutate_all_allocated:
  assumes "builder_allocated b h" and "mutate_all ca self ms (b, h) = Return (b', h')"
  shows "builder_allocated b' h'"
  using assms
proof (induction ms arbitrary: b h)
  case Nil
  then show ?case by simp
next
  case (Cons m ms)
  from Cons.prems(2) obtain b2 h2 where
    1: "mutate ca self m (b, h) = Return (b2, h2)" and
    2: "mutate_all ca self ms (b2, h2) = Return (b', h')"
    by (auto simp: obind_Return_iff)
  from Cons.IH[OF mutate_allocated[OF Cons.prems(1) 1] 2] show ?case .
qed

lemma zero_builder_allocated: "builder_allocated zero_builder h"
  by (simp add: builder_allocated_def zero_builder_def nil_slice_def)

lemma built_builder_allocated:
  "mutate_all ca self ms (zero_builder, empty_heap) = Return (b, h) \<Longrightarrow> builder_allocated b h"
  by (rule mutate_all_allocated[OF zero_builder_allocated])

subsection \<open>What \<^verbatim>\<open>Assemble\<close> copies\<close>

text \<open>
  The three loops of \<^verbatim>\<open>Assemble\<close> read the builder's root slice, node map and
  neighbour sets and leave, in storage allocated on the way, the same roots, the same
  node map, and for every source node the members of its neighbour set in the order
  the set is ranged over.
\<close>

lemma store_fresh_key: "k \<notin> fst ` set m \<Longrightarrow> store k v m = m @ [(k, v)]"
  unfolding store_def by (induction m) auto

lemma fold_store_distinct:
  "distinct (map fst es) \<Longrightarrow> fst ` set acc \<inter> fst ` set es = {} \<Longrightarrow>
     fold (\<lambda>(k, v) m. store k v m) es acc = acc @ es"
proof (induction es arbitrary: acc)
  case Nil
  then show ?case by simp
next
  case (Cons e es)
  obtain k v where e: "e = (k, v)" by (cases e)
  have k: "k \<notin> fst ` set acc" using Cons.prems(2) by (auto simp: e)
  have "fold (\<lambda>(k, v) m. store k v m) es (acc @ [(k, v)]) = (acc @ [(k, v)]) @ es"
    using Cons.prems by (intro Cons.IH) (auto simp: e)
  then show ?case by (simp add: e store_fresh_key[OF k])
qed

lemma fold_nodemap_store_value:
  "nodemaps (fold (\<lambda>(k, v) h. h\<lparr>nodemaps := (nodemaps h)(p := store k v (nodemaps h p))\<rparr>) es h) p
     = fold (\<lambda>(k, v) m. store k v m) es (nodemaps h p)"
  by (induction es arbitrary: h) (auto split: prod.splits)

lemma fold_nodemap_store_sets:
  "hashsets (fold (\<lambda>(k, v) h. h\<lparr>nodemaps := (nodemaps h)(p := store k v (nodemaps h p))\<rparr>) es h)
       = hashsets h
   \<and> setmaps (fold (\<lambda>(k, v) h. h\<lparr>nodemaps := (nodemaps h)(p := store k v (nodemaps h p))\<rparr>) es h)
       = setmaps h"
  by (induction es arbitrary: h) (auto split: prod.splits)

lemma Assemble_roots_copy:
  assumes "Assemble_roots b h = (r, h')"
    and "off (roots b) + len (roots b) \<le> length (arrays h (arr (roots b)))"
    and "len (roots b) = 0 \<or> arr (roots b) < fresh h"
  shows "slice_read h' r = slice_read h (roots b)
       \<and> nodemaps h' = nodemaps h \<and> hashsets h' = hashsets h \<and> setmaps h' = setmaps h
       \<and> slicemaps h' = slicemaps h"
proof (cases "len (roots b) = 0")
  case True
  with assms show ?thesis
    by (auto simp: Assemble_roots_def nil_slice_def slice_read_def)
next
  case False
  let ?n = "len (roots b)"
  let ?r = "\<lparr>arr = fresh h, off = 0, len = ?n, cap = ?n\<rparr>"
  let ?h = "h\<lparr>arrays := (arrays h)(fresh h := replicate ?n zeroAddress), fresh := Suc (fresh h)\<rparr>"
  from assms(1) False have r: "r = ?r" and h': "h' = copy_slice ?r (roots b) ?h"
    by (auto simp: Assemble_roots_def make_slice_def Let_def)
  have ne: "arr (roots b) \<noteq> fresh h" using assms(3) False by auto
  have src: "slice_read ?h (roots b) = slice_read h (roots b)"
    using ne by (simp add: slice_read_def)
  have l: "length (slice_read h (roots b)) = ?n"
    using assms(2) by (simp add: slice_read_def)
  show ?thesis
    unfolding r h' using src l
    by (simp add: copy_slice_def slice_write_def slice_read_def Let_def)
qed

lemma Assemble_vertices_copy:
  assumes "Assemble_vertices b h = (v, h')" and "wf_map (nodes_at h (nodes b))"
  shows "nodes_at h' v = nodes_at h (nodes b)
       \<and> arrays h' = arrays h \<and> hashsets h' = hashsets h \<and> setmaps h' = setmaps h
       \<and> slicemaps h' = slicemaps h"
proof (cases "length (nodes_at h (nodes b)) \<noteq> 0")
  case True
  let ?h = "h\<lparr>nodemaps := (nodemaps h)(fresh h := []), fresh := Suc (fresh h)\<rparr>"
  let ?fold = "fold (\<lambda>(k, n) h'. h'\<lparr>nodemaps := (nodemaps h')(fresh h := store k n (nodemaps h' (fresh h)))\<rparr>)
                   (nodes_at h (nodes b)) ?h"
  from assms True have v: "v = Some (fresh h)" and h': "h' = ?fold"
    by (auto simp: Assemble_vertices_def Let_def)
  have "nodemaps ?fold (fresh h) = fold (\<lambda>(k, v) m. store k v m) (nodes_at h (nodes b)) []"
    using fold_nodemap_store_value[of "fresh h" "nodes_at h (nodes b)" ?h] by simp
  also have "\<dots> = nodes_at h (nodes b)"
    using fold_store_distinct[of "nodes_at h (nodes b)" "[]"] assms(2) by (simp add: wf_map_def)
  finally have n: "nodes_at h' v = nodes_at h (nodes b)" by (simp add: v h' nodes_at_def)
  have "arrays ?fold = arrays ?h \<and> slicemaps ?fold = slicemaps ?h"
    using fold_nodemap_store[of "fresh h" "nodes_at h (nodes b)" ?h] by simp
  moreover have "hashsets ?fold = hashsets ?h \<and> setmaps ?fold = setmaps ?h"
    using fold_nodemap_store_sets[of "fresh h" "nodes_at h (nodes b)" ?h] by simp
  ultimately show ?thesis using n by (simp add: h')
next
  case False
  with assms show ?thesis by (auto simp: Assemble_vertices_def nodes_at_def split: option.splits)
qed

lemma lookup_store_same: "lookup (store k v m) k = Some v"
  by (simp add: lookup_def store_def update_conv')

lemma store_store: "store k v (store k v' m) = store k v m"
  by (simp add: store_def)

lemma index_slice_lookup: "lookup m k = Some s \<Longrightarrow> index_slice m k = s"
  by (simp add: index_slice_def)

lemma take_update_append:
  "l < length A \<Longrightarrow> take (Suc l) (A[l := x]) = take l A @ [x]"
  by (simp add: take_Suc_conv_app_nth)

lemma Assemble_inner_appends:
  assumes "lookup (slicemaps h p) key = Some s" and "off s = 0"
    and "len s + length es \<le> cap s" and "cap s \<le> length (arrays h (arr s))"
  shows "slicemaps (Assemble_inner p key es h)
           = (slicemaps h)(p := store key (s\<lparr>len := len s + length es\<rparr>) (slicemaps h p))
       \<and> arrays (Assemble_inner p key es h)
           = (arrays h)(arr s := take (len s) (arrays h (arr s)) @ map fst es
                                   @ drop (len s + length es) (arrays h (arr s)))
       \<and> fresh (Assemble_inner p key es h) = fresh h
       \<and> hashsets (Assemble_inner p key es h) = hashsets h
       \<and> setmaps (Assemble_inner p key es h) = setmaps h
       \<and> nodemaps (Assemble_inner p key es h) = nodemaps h"
  using assms
proof (induction es arbitrary: h s)
  case Nil
  have "store key s (slicemaps h p) = slicemaps h p"
    using Nil.prems(1) by (simp add: store_def lookup_def update_triv)
  then show ?case by (simp add: fun_upd_idem)
next
  case (Cons e es)
  obtain n u where e: "e = (n, u)" by (cases e)
  let ?A = "arrays h (arr s)"
  let ?s1 = "s\<lparr>len := Suc (len s)\<rparr>"
  let ?h1 = "h\<lparr>arrays := (arrays h)(arr s := ?A[len s := n])\<rparr>"
  let ?h2 = "?h1\<lparr>slicemaps := (slicemaps ?h1)(p := store key ?s1 (slicemaps ?h1 p))\<rparr>"
  have lt: "len s < cap s" using Cons.prems(3) by simp
  have ap: "append_slice (index_slice (slicemaps h p) key) n h = (?s1, ?h1)"
    using lt Cons.prems(1,2) by (simp add: append_slice_def index_slice_lookup)
  have step: "Assemble_inner p key (e # es) h = Assemble_inner p key es ?h2"
    by (simp add: e ap)
  have 1: "lookup (slicemaps ?h2 p) key = Some ?s1" by (simp add: lookup_store_same)
  have 2: "off ?s1 = 0" using Cons.prems(2) by simp
  have 3: "len ?s1 + length es \<le> cap ?s1" using Cons.prems(3) by simp
  have 4: "cap ?s1 \<le> length (arrays ?h2 (arr ?s1))" using Cons.prems(4) by simp
  have l: "len s < length ?A" using lt Cons.prems(4) by simp
  have arr: "take (Suc (len s)) (?A[len s := n]) @ map fst es
               @ drop (Suc (len s) + length es) (?A[len s := n])
           = take (len s) ?A @ map fst (e # es) @ drop (len s + length (e # es)) ?A"
    using l by (simp add: take_update_append e)
  from Cons.IH[OF 1 2 3 4] show ?case
    unfolding step using arr by (auto simp: store_store fun_eq_iff e)
qed

lemma Assemble_outer_copy:
  assumes "distinct (map fst es)" and "fst ` set (slicemaps h p) \<inter> fst ` set es = {}"
    and "list_all (\<lambda>(k, s). arr s < fresh h) (slicemaps h p)"
  shows "map (\<lambda>(k, s). (k, slice_read (Assemble_outer p es h) s))
             (slicemaps (Assemble_outer p es h) p)
           = map (\<lambda>(k, s). (k, slice_read h s)) (slicemaps h p)
             @ map (\<lambda>(k, r). (k, map fst (hashsets h r))) es
       \<and> nodemaps (Assemble_outer p es h) = nodemaps h
       \<and> hashsets (Assemble_outer p es h) = hashsets h
       \<and> setmaps (Assemble_outer p es h) = setmaps h
       \<and> fresh h \<le> fresh (Assemble_outer p es h)
       \<and> (\<forall>a<fresh h. arrays (Assemble_outer p es h) a = arrays h a)"
  using assms
proof (induction es arbitrary: h)
  case Nil
  then show ?case by simp
next
  case (Cons e es)
  obtain k r where e: "e = (k, r)" by (cases e)
  let ?f = "fresh h"
  let ?n = "length (hashsets h r)"
  let ?m = "slicemaps h p"
  let ?s0 = "\<lparr>arr = ?f, off = 0, len = 0, cap = ?n\<rparr>"
  let ?s' = "\<lparr>arr = ?f, off = 0, len = ?n, cap = ?n\<rparr>"
  let ?h1 = "h\<lparr>arrays := (arrays h)(?f := replicate ?n zeroAddress), fresh := Suc ?f\<rparr>"
  let ?h2 = "?h1\<lparr>slicemaps := (slicemaps ?h1)(p := store k ?s0 (slicemaps ?h1 p))\<rparr>"
  define h3 where "h3 = Assemble_inner p k (hashsets ?h2 r) ?h2"
  have step: "Assemble_outer p (e # es) h = Assemble_outer p es h3"
    by (simp add: e make_slice_def Let_def h3_def)
  have knew: "k \<notin> fst ` set ?m" using Cons.prems(2) by (auto simp: e)
  have i1: "lookup (slicemaps ?h2 p) k = Some ?s0" by (simp add: lookup_store_same)
  have inner: "slicemaps h3 = (slicemaps ?h2)(p := store k (?s0\<lparr>len := len ?s0 + length (hashsets ?h2 r)\<rparr>) (slicemaps ?h2 p))
       \<and> arrays h3 = (arrays ?h2)(arr ?s0 := take (len ?s0) (arrays ?h2 (arr ?s0)) @ map fst (hashsets ?h2 r)
                                   @ drop (len ?s0 + length (hashsets ?h2 r)) (arrays ?h2 (arr ?s0)))
       \<and> fresh h3 = fresh ?h2
       \<and> hashsets h3 = hashsets ?h2
       \<and> setmaps h3 = setmaps ?h2
       \<and> nodemaps h3 = nodemaps ?h2"
    unfolding h3_def by (rule Assemble_inner_appends[OF i1]) simp_all
  have "slicemaps h3 p = store k ?s' (store k ?s0 ?m)"
    using inner by simp
  also have "\<dots> = store k ?s' ?m" by (rule store_store)
  also have "\<dots> = ?m @ [(k, ?s')]" by (rule store_fresh_key[OF knew])
  finally have sm3: "slicemaps h3 p = ?m @ [(k, ?s')]" .
  have ar3: "arrays h3 = (arrays h)(?f := map fst (hashsets h r))"
    using inner by (simp add: fun_eq_iff)
  have fr3: "fresh h3 = Suc ?f" using inner by simp
  have hs3: "hashsets h3 = hashsets h" and nm3: "nodemaps h3 = nodemaps h"
    and st3: "setmaps h3 = setmaps h"
    using inner by simp_all
  have p1: "distinct (map fst es)" using Cons.prems(1) by simp
  have p2: "fst ` set (slicemaps h3 p) \<inter> fst ` set es = {}"
    using Cons.prems(1,2) unfolding sm3 by (auto simp: e)
  have p3: "list_all (\<lambda>(k, s). arr s < fresh h3) (slicemaps h3 p)"
    using Cons.prems(3) unfolding sm3 fr3 by (auto simp: list_all_iff)
  note IH = Cons.IH[OF p1 p2 p3]
  have old: "map (\<lambda>(k, s). (k, slice_read h3 s)) ?m = map (\<lambda>(k, s). (k, slice_read h s)) ?m"
    using Cons.prems(3) by (intro map_cong refl) (auto simp: list_all_iff slice_read_def ar3)
  have new: "slice_read h3 ?s' = map fst (hashsets h r)"
    by (simp add: slice_read_def ar3)
  have reads: "map (\<lambda>(k, s). (k, slice_read h3 s)) (slicemaps h3 p)
      = map (\<lambda>(k, s). (k, slice_read h s)) ?m @ [(k, map fst (hashsets h r))]"
    unfolding sm3 using old new by simp
  have below: "\<forall>a<fresh h. arrays (Assemble_outer p es h3) a = arrays h a"
    using IH by (simp add: fr3 ar3)
  show ?case
    unfolding step using IH reads below
    by (simp add: hs3 nm3 st3 fr3 e)
qed

lemma Assemble_neighbours_copy:
  assumes "Assemble_neighbours b h = (n, h')" and "wf_map (setmap_at h (neighbours b))"
  shows "map (\<lambda>(k, s). (k, slice_read h' s)) (slicemap_at h' n)
           = map (\<lambda>(k, r). (k, map fst (hashsets h r))) (setmap_at h (neighbours b))
       \<and> nodemaps h' = nodemaps h
       \<and> (\<forall>a<fresh h. arrays h' a = arrays h a)"
proof (cases "length (setmap_at h (neighbours b)) \<noteq> 0")
  case True
  define h0 where "h0 = h\<lparr>slicemaps := (slicemaps h)(fresh h := []), fresh := Suc (fresh h)\<rparr>"
  from assms(1) True have n: "n = Some (fresh h)"
    and h': "h' = Assemble_outer (fresh h) (setmap_at h (neighbours b)) h0"
    by (auto simp: Assemble_neighbours_def Let_def h0_def)
  have a1: "distinct (map fst (setmap_at h (neighbours b)))"
    using assms(2) by (simp add: wf_map_def)
  have a2: "fst ` set (slicemaps h0 (fresh h)) \<inter> fst ` set (setmap_at h (neighbours b)) = {}"
    by (simp add: h0_def)
  have a3: "list_all (\<lambda>(k, s). arr s < fresh h0) (slicemaps h0 (fresh h))"
    by (simp add: h0_def)
  note oc = Assemble_outer_copy[OF a1 a2 a3]
  have e1: "map (\<lambda>(k, s). (k, slice_read h' s)) (slicemap_at h' n)
           = map (\<lambda>(k, r). (k, map fst (hashsets h r))) (setmap_at h (neighbours b))"
    using oc[THEN conjunct1] unfolding h' n by (simp add: slicemap_at_def h0_def)
  have e2: "nodemaps h' = nodemaps h"
    using oc[THEN conjunct2, THEN conjunct1] unfolding h' by (simp add: h0_def)
  have e3: "\<forall>a<fresh h. arrays h' a = arrays h a"
    using oc unfolding h' by (simp add: h0_def)
  from e1 e2 e3 show ?thesis by blast
next
  case False
  with assms show ?thesis
    by (auto simp: Assemble_neighbours_def slicemap_at_def)
qed

lemma Assemble_roots_fresh:
  assumes "Assemble_roots b h = (r, h')"
  shows "len r = 0 \<or> arr r < fresh h'"
  using assms
  by (auto simp: Assemble_roots_def make_slice_def copy_slice_def slice_write_def Let_def
      nil_slice_def split: if_splits)

lemma Assemble_vertices_fresh:
  assumes "Assemble_vertices b h = (v, h')"
  shows "fresh h \<le> fresh h'"
proof (cases "length (nodes_at h (nodes b)) \<noteq> 0")
  case True
  with assms fold_nodemap_store[of "fresh h" "nodes_at h (nodes b)"
      "h\<lparr>nodemaps := (nodemaps h)(fresh h := []), fresh := Suc (fresh h)\<rparr>"]
  show ?thesis by (auto simp: Assemble_vertices_def Let_def)
next
  case False
  with assms show ?thesis by (auto simp: Assemble_vertices_def)
qed

lemma Assemble_copies_builder:
  assumes "builder_wf h b" and "builder_allocated b h" and "Assemble b h = (g, h')"
  shows "AssemblyGraph_contents h' g = builder_contents h b"
proof -
  obtain r h1 where ar: "Assemble_roots b h = (r, h1)" by (cases "Assemble_roots b h")
  obtain v h2 where av: "Assemble_vertices b h1 = (v, h2)" by (cases "Assemble_vertices b h1")
  obtain n h3 where an: "Assemble_neighbours b h2 = (n, h3)"
    by (cases "Assemble_neighbours b h2")
  from assms(3) ar av an have g: "g = \<lparr>Root = r, Vertices = v, Neighbours = n\<rparr>" and h': "h' = h3"
    by (simp_all add: Assemble_def)
  from assms(1) have w1: "off (roots b) + len (roots b) \<le> length (arrays h (arr (roots b)))"
    and w2: "wf_map (nodes_at h (nodes b))" and w3: "wf_map (setmap_at h (neighbours b))"
    by (simp_all add: builder_wf_def)
  from assms(2) have al: "len (roots b) = 0 \<or> arr (roots b) < fresh h"
    by (simp add: builder_allocated_def)
  note rc = Assemble_roots_copy[OF ar w1 al]
  have n1: "nodes_at h1 (nodes b) = nodes_at h (nodes b)"
    and s1: "setmap_at h1 (neighbours b) = setmap_at h (neighbours b)"
    using rc by (auto simp: nodes_at_def setmap_at_def split: option.splits)
  note vc = Assemble_vertices_copy[OF av w2[folded n1]]
  have s2: "setmap_at h2 (neighbours b) = setmap_at h (neighbours b)"
    using vc s1 by (auto simp: setmap_at_def split: option.splits)
  have hs2: "hashsets h2 = hashsets h" using vc rc by simp
  note nc = Assemble_neighbours_copy[OF an w3[folded s2]]
  have rf: "len r = 0 \<or> arr r < fresh h2"
    using Assemble_roots_fresh[OF ar] Assemble_vertices_fresh[OF av] by auto
  have "slice_read h3 r = slice_read h2 r"
    using rf nc by (auto simp: slice_read_def)
  also have "\<dots> = slice_read h1 r" using vc by (simp add: slice_read_def)
  also have "\<dots> = slice_read h (roots b)" using rc by simp
  finally have c1: "slice_read h3 r = slice_read h (roots b)" .
  have "nodes_at h3 v = nodes_at h2 v" using nc by (auto simp: nodes_at_def split: option.splits)
  also have "\<dots> = nodes_at h (nodes b)" using vc n1 by simp
  finally have c2: "nodes_at h3 v = nodes_at h (nodes b)" .
  have c3: "map (\<lambda>(k, s). (k, slice_read h3 s)) (slicemap_at h3 n)
          = map (\<lambda>(k, r). (k, map fst (hashsets h r))) (setmap_at h (neighbours b))"
    using nc[THEN conjunct1] unfolding s2 hs2 .
  show ?thesis
    unfolding g h' AssemblyGraph_contents_def builder_contents_def AssemblyGraph_Roots_def
      AssemblyGraph_Nodes_def
    using c1 c2 c3 by simp
qed

subsection \<open>Builders grown from the zero value\<close>

text \<open>
  The root slice of a builder stays within its array and its maps keep one entry for
  a key through every call, so every builder grown from the zero value satisfies
  \<^const>\<open>builder_wf\<close>.
\<close>

lemma Nodes_loop_wf:
  "Nodes_loop ca ns p h = Return h' \<Longrightarrow>
     setmaps h' = setmaps h \<and> hashsets h' = hashsets h
     \<and> (\<forall>q. wf_map (nodemaps h q) \<longrightarrow> wf_map (nodemaps h' q))"
proof (induction ns arbitrary: h)
  case Nil
  then show ?case by simp
next
  case (Cons n ns)
  from Cons.prems obtain k hm where
    hm: "nodemap_store p k n h = Return hm" and rest: "Nodes_loop ca ns p hm = Return h'"
    by (auto simp: obind_Return_iff)
  from hm have "setmaps hm = setmaps h \<and> hashsets hm = hashsets h
     \<and> (\<forall>q. wf_map (nodemaps h q) \<longrightarrow> wf_map (nodemaps hm q))"
    by (auto simp: nodemap_store_def wf_map_store split: option.splits)
  with Cons.IH[OF rest] show ?case by simp
qed

lemma Roots_loop_wf:
  "Roots_loop ca s i ns h = Return h' \<Longrightarrow>
     setmaps h' = setmaps h \<and> hashsets h' = hashsets h
     \<and> (\<forall>x. length (arrays h' x) = length (arrays h x))"
proof (induction ns arbitrary: h i)
  case Nil
  then show ?case by simp
next
  case (Cons n ns)
  from Cons.prems obtain x hm where
    hm: "slice_set s i x h = Return hm" and rest: "Roots_loop ca s (Suc i) ns hm = Return h'"
    by (auto simp: obind_Return_iff)
  from hm have "setmaps hm = setmaps h \<and> hashsets hm = hashsets h
     \<and> (\<forall>x. length (arrays hm x) = length (arrays h x))"
    by (auto simp: slice_set_def split: if_splits)
  with Cons.IH[OF rest] show ?case by simp
qed

lemma fold_store_wf:
  "wf_map acc \<Longrightarrow> wf_map (fold (\<lambda>(k, v) m. store k v m) es acc)"
  by (induction es arbitrary: acc) (auto simp: wf_map_store)

lemma Builder_Nodes_wf:
  assumes wf: "builder_wf h b"
    and run: "Builder_Nodes ca self ns (b, h) = Return (b', h')"
  shows "builder_wf h' b'"
proof -
  from run obtain b1 where cc: "copyCheck self b = Return b1"
    and body: "(let (b, h) =
            (if nodes b1 = None
             then (b1\<lparr>nodes := Some (fresh h)\<rparr>,
                   h\<lparr>nodemaps := (nodemaps h)(fresh h := []), fresh := Suc (fresh h)\<rparr>)
             else (b1, h))
      in obind (Nodes_loop ca ns (nodes b) h) (\<lambda>h. Return (b, h))) = Return (b', h')"
    by (auto simp: Builder_Nodes_def obind_Return_iff)
  note f = copyCheck_fields[OF cc]
  show ?thesis
  proof (cases "nodes b1")
    case None
    let ?h = "h\<lparr>nodemaps := (nodemaps h)(fresh h := []), fresh := Suc (fresh h)\<rparr>"
    from body None have loop: "Nodes_loop ca ns (Some (fresh h)) ?h = Return h'"
      and b': "b' = b1\<lparr>nodes := Some (fresh h)\<rparr>"
      by (auto simp: obind_Return_iff)
    have "wf_map (nodemaps ?h (fresh h))" by (simp add: wf_map_def)
    with Nodes_loop_wf[OF loop] have w: "wf_map (nodemaps h' (fresh h))" by blast
    from Nodes_loop_frame[OF loop] Nodes_loop_wf[OF loop] wf f w show ?thesis
      by (auto simp: builder_wf_def b' nodes_at_def setmap_at_def split: option.splits)
  next
    case (Some p)
    from body Some have loop: "Nodes_loop ca ns (Some p) h = Return h'" and b': "b' = b1"
      by (auto simp: obind_Return_iff)
    have "wf_map (nodemaps h p)"
      using wf f Some by (auto simp: builder_wf_def nodes_at_def split: option.splits)
    with Nodes_loop_wf[OF loop] have w: "wf_map (nodemaps h' p)" by blast
    from Nodes_loop_frame[OF loop] Nodes_loop_wf[OF loop] wf f w Some show ?thesis
      by (auto simp: builder_wf_def b' nodes_at_def setmap_at_def split: option.splits)
  qed
qed

lemma Builder_Connect_wf:
  assumes wf: "builder_wf h b"
    and run: "Builder_Connect ca self source target (b, h) = Return (b', h')"
  shows "builder_wf h' b'"
proof -
  from run obtain b1 b2 h2 fr t where cc: "copyCheck self b = Return b1"
    and nd: "Builder_Nodes ca self [source, target] (b1, h) = Return (b2, h2)"
    and tail: "(let (b, h) =
            (if neighbours b2 = None
             then (b2\<lparr>neighbours := Some (fresh h2)\<rparr>,
                   h2\<lparr>setmaps := (setmaps h2)(fresh h2 := []), fresh := Suc (fresh h2)\<rparr>)
             else (b2, h2))
      in case neighbours b of
           None \<Rightarrow> Panic nil_map_assignment
         | Some q \<Rightarrow>
             (let h = (if lookup (setmaps h q) fr = None
                       then h\<lparr>hashsets := (hashsets h)(fresh h := []),
                              setmaps := (setmaps h)(q := store fr (fresh h) (setmaps h q)),
                              fresh := Suc (fresh h)\<rparr>
                       else h)
              in case lookup (setmaps h q) fr of
                   None \<Rightarrow> Panic nil_map_assignment
                 | Some r \<Rightarrow>
                     Return (b, h\<lparr>hashsets := (hashsets h)(r := store t () (hashsets h r))\<rparr>)))
        = Return (b', h')"
    by (auto simp: Builder_Connect_def obind_Return_iff)
  have w1: "builder_wf h b1"
    using wf copyCheck_fields[OF cc] by (simp add: builder_wf_def)
  from Builder_Nodes_wf[OF w1 nd] have w2: "builder_wf h2 b2" .
  from tail have rest: "arrays h' = arrays h2 \<and> nodemaps h' = nodemaps h2
               \<and> roots b' = roots b2 \<and> nodes b' = nodes b2"
    by (auto simp: Let_def split: prod.splits option.splits if_splits)
  from tail w2 have sm: "wf_map (setmap_at h' (neighbours b'))"
    by (auto simp: Let_def builder_wf_def setmap_at_def wf_map_store wf_map_def[of "[]"]
        split: prod.splits option.splits if_splits)
  from w2 rest sm show ?thesis
    by (auto simp: builder_wf_def nodes_at_def split: option.splits)
qed

lemma Builder_Roots_wf:
  assumes wf: "builder_wf h b"
    and run: "Builder_Roots ca self root (b, h) = Return (b', h')"
  shows "builder_wf h' b'"
proof -
  from run obtain b1 b2 h2 where cc: "copyCheck self b = Return b1"
    and nd: "Builder_Nodes ca self root (b1, h) = Return (b2, h2)"
    and body: "(let (b, h) =
            (if len (roots b2) > length root
             then (b2\<lparr>roots := (roots b2)\<lparr>len := length root\<rparr>\<rparr>, h2)
             else (let (s, h) = make_slice (length root) (length root) h2
                   in (b2\<lparr>roots := s\<rparr>, h)))
      in obind (Roots_loop ca (roots b) 0 root h) (\<lambda>h. Return (b, h))) = Return (b', h')"
    by (auto simp: Builder_Roots_def obind_Return_iff)
  have w1: "builder_wf h b1"
    using wf copyCheck_fields[OF cc] by (simp add: builder_wf_def)
  from Builder_Nodes_wf[OF w1 nd] have w2: "builder_wf h2 b2" .
  show ?thesis
  proof (cases "len (roots b2) > length root")
    case True
    let ?s = "(roots b2)\<lparr>len := length root\<rparr>"
    from body True have loop: "Roots_loop ca ?s 0 root h2 = Return h'"
      and b': "b' = b2\<lparr>roots := ?s\<rparr>"
      by (auto simp: obind_Return_iff)
    from Roots_loop_frame[OF loop] Roots_loop_wf[OF loop] w2 True show ?thesis
      by (auto simp: builder_wf_def b' nodes_at_def setmap_at_def split: option.splits)
  next
    case False
    let ?s = "\<lparr>arr = fresh h2, off = 0, len = length root, cap = length root\<rparr>"
    let ?h = "h2\<lparr>arrays := (arrays h2)(fresh h2 := replicate (length root) zeroAddress),
                  fresh := Suc (fresh h2)\<rparr>"
    from body False have loop: "Roots_loop ca ?s 0 root ?h = Return h'"
      and b': "b' = b2\<lparr>roots := ?s\<rparr>"
      by (auto simp: obind_Return_iff make_slice_def)
    from Roots_loop_frame[OF loop] Roots_loop_wf[OF loop] w2 show ?thesis
      by (auto simp: builder_wf_def b' nodes_at_def setmap_at_def split: option.splits)
  qed
qed

lemma hintNodes_wf:
  assumes wf: "builder_wf h b" and run: "hintNodes (b, h) = (b', h')"
  shows "builder_wf h' b'"
proof -
  let ?h = "h\<lparr>nodemaps := (nodemaps h)(fresh h := []), fresh := Suc (fresh h)\<rparr>"
  let ?es = "nodes_at ?h (nodes b)"
  from run have b': "b' = b\<lparr>nodes := Some (fresh h)\<rparr>"
    and h': "h' = fold (\<lambda>(k, v) h'. h'\<lparr>nodemaps := (nodemaps h')(fresh h := store k v (nodemaps h' (fresh h)))\<rparr>)
                ?es ?h"
    by (auto simp: hintNodes_def Let_def)
  have "nodemaps h' (fresh h) = fold (\<lambda>(k, v) m. store k v m) ?es (nodemaps ?h (fresh h))"
    unfolding h' by (rule fold_nodemap_store_value)
  moreover have "wf_map (fold (\<lambda>(k, v) m. store k v m) ?es (nodemaps ?h (fresh h)))"
    by (rule fold_store_wf) (simp add: wf_map_def)
  ultimately have w: "wf_map (nodemaps h' (fresh h))" by simp
  have "arrays h' = arrays ?h" and "setmaps h' = setmaps ?h"
    using fold_nodemap_store[of "fresh h" ?es ?h] fold_nodemap_store_sets[of "fresh h" ?es ?h]
    unfolding h' by simp_all
  with wf w show ?thesis
    by (auto simp: builder_wf_def b' nodes_at_def setmap_at_def split: option.splits)
qed

lemma Builder_Hint_wf:
  assumes wf: "builder_wf h b"
    and run: "Builder_Hint self n e (b, h) = Return (b', h')"
  shows "builder_wf h' b'"
proof -
  from run obtain b1 where cc: "copyCheck self b = Return b1"
    and body: "(if int (length (nodes_at h (nodes b1))) < n then hintNodes (b1, h) else (b1, h))
                 = (b', h')"
    by (auto simp: Builder_Hint_def obind_Return_iff Let_def split: if_splits prod.splits)
  have w1: "builder_wf h b1"
    using wf copyCheck_fields[OF cc] by (simp add: builder_wf_def)
  show ?thesis
  proof (cases "int (length (nodes_at h (nodes b1))) < n")
    case True
    with body have "hintNodes (b1, h) = (b', h')" by simp
    from hintNodes_wf[OF w1 this] show ?thesis .
  next
    case False
    with body w1 show ?thesis by simp
  qed
qed

lemma mutate_wf:
  assumes "builder_wf h b" and "mutate ca self m (b, h) = Return (b', h')"
  shows "builder_wf h' b'"
proof (cases m)
  case (CallNodes ns)
  with assms Builder_Nodes_wf[of h b ca self ns b' h'] show ?thesis by simp
next
  case (CallConnect s t)
  with assms Builder_Connect_wf[of h b ca self s t b' h'] show ?thesis by simp
next
  case (CallRoots rs)
  with assms Builder_Roots_wf[of h b ca self rs b' h'] show ?thesis by simp
next
  case CallReset
  with assms show ?thesis
    by (auto simp: Builder_Reset_def builder_wf_def nil_slice_def nodes_at_def setmap_at_def
        wf_map_def)
next
  case (CallHint n e)
  with assms Builder_Hint_wf[of h b self n e b' h'] show ?thesis by simp
qed

lemma mutate_all_wf:
  assumes "builder_wf h b" and "mutate_all ca self ms (b, h) = Return (b', h')"
  shows "builder_wf h' b'"
  using assms
proof (induction ms arbitrary: b h)
  case Nil
  then show ?case by simp
next
  case (Cons m ms)
  from Cons.prems(2) obtain b2 h2 where
    1: "mutate ca self m (b, h) = Return (b2, h2)" and
    2: "mutate_all ca self ms (b2, h2) = Return (b', h')"
    by (auto simp: obind_Return_iff)
  from Cons.IH[OF mutate_wf[OF Cons.prems(1) 1] 2] show ?case .
qed

lemma zero_builder_wf: "builder_wf h zero_builder"
  by (simp add: builder_wf_def zero_builder_def nil_slice_def nodes_at_def setmap_at_def
      wf_map_def)

lemma built_builder_wf:
  "mutate_all ca self ms (zero_builder, empty_heap) = Return (b, h) \<Longrightarrow> builder_wf h b"
  by (rule mutate_all_wf[OF zero_builder_wf])

lemmas builder_eval = Assemble_def Assemble_roots_def Assemble_vertices_def
  Assemble_neighbours_def make_slice_def copy_slice_def slice_write_def slice_read_def
  Builder_Roots_def Builder_Nodes_def copyCheck_def obind_def MustContentAddress_def
  nodemap_store_def slice_set_def nodes_at_def setmap_at_def slicemap_at_def store_def
  empty_heap_def nil_slice_def lookup_def AssemblyGraph_contents_def AssemblyGraph_Roots_def
  AssemblyGraph_Nodes_def builder_allocated_def Let_def

text \<open>
  Claim C9.  \<^verbatim>\<open>Assemble\<close> returns a copy of the builder's state, in storage of the
  assembly's own.  The roots, the node mapping and the adjacency mapping of the result
  read as the builder's root slice, node map and neighbour sets did when \<^verbatim>\<open>Assemble\<close>
  was called (for a builder whose root slice lies within its array and whose maps have
  one entry for a key, as every Go slice and map does); and whatever sequence of
  \<^verbatim>\<open>Nodes\<close>, \<^verbatim>\<open>Connect\<close>, \<^verbatim>\<open>Roots\<close>, \<^verbatim>\<open>Reset\<close> and \<^verbatim>\<open>Hint\<close> calls the builder
  receives afterwards, they read the same in the heap those calls leave as in the heap
  \<^verbatim>\<open>Assemble\<close> left.
\<close>

theorem Assemble_is_a_copy:
  assumes "builder_allocated b h"
    and "Assemble b h = (g, h1)"
    and "mutate_all ca self ms (b, h1) = Return (b', h2)"
  shows "(builder_wf h b \<longrightarrow> AssemblyGraph_contents h1 g = builder_contents h b)
       \<and> AssemblyGraph_contents h2 g = AssemblyGraph_contents h1 g"
proof -
  from Assemble_inside[OF assms(1,2)]
  have gi: "graph_inside (fresh h) (fresh h1) h1 g"
    and bo: "builder_outside (fresh h) (fresh h1) b"
    and rk: "region_kept (fresh h) (fresh h1) h1 h1"
    by simp_all
  from mutate_all_keeps[OF rk bo assms(3)] have "region_kept (fresh h) (fresh h1) h1 h2" .
  with gi have "AssemblyGraph_contents h2 g = AssemblyGraph_contents h1 g"
    by (rule contents_kept)
  moreover have "AssemblyGraph_contents h1 g = builder_contents h b" if "builder_wf h b"
    using that assms(1,2) by (rule Assemble_copies_builder)
  ultimately show ?thesis by blast
qed

theorem Assemble_is_a_copy_witness:
  "let b = \<lparr>roots = \<lparr>arr = 1, off = 0, len = 2, cap = 2\<rparr>, nodes = Some 0,
             neighbours = Some 0, addr = Some 100\<rparr>;
       h = (empty_heap :: nat heap)
             \<lparr>arrays := (\<lambda>_. [])(1 := [[2], [1]]),
              nodemaps := (\<lambda>_. [])(0 := [([2], 2), ([1], 1)]),
              hashsets := (\<lambda>_. [])(0 := [([1], ())]),
              setmaps := (\<lambda>_. [])(0 := [([2], 0)]), fresh := 2\<rparr>;
       ca = (\<lambda>v. Inr [of_nat v])
   in builder_allocated b h \<and> builder_wf h b
      \<and> (\<exists>g h1 b' h2. Assemble b h = (g, h1)
            \<and> mutate_all ca 100 [CallRoots [7], CallConnect 2 7] (b, h1) = Return (b', h2)
            \<and> builder_contents h b = ([[2], [1]], [([2], 2), ([1], 1)], [([2], [[1]])])
            \<and> builder_contents h2 b'
                 = ([[7]], [([2], 2), ([1], 1), ([7], 7)], [([2], [[1], [7]])])
            \<and> AssemblyGraph_contents h1 g = builder_contents h b
            \<and> AssemblyGraph_contents h2 g = AssemblyGraph_contents h1 g)"
proof -
  let ?b = "\<lparr>roots = \<lparr>arr = 1, off = 0, len = 2, cap = 2\<rparr>, nodes = Some 0,
             neighbours = Some 0, addr = Some 100\<rparr>"
  let ?h = "(empty_heap :: nat heap)
             \<lparr>arrays := (\<lambda>_. [])(1 := [[2], [1]]),
              nodemaps := (\<lambda>_. [])(0 := [([2], 2), ([1], 1)]),
              hashsets := (\<lambda>_. [])(0 := [([1], ())]),
              setmaps := (\<lambda>_. [])(0 := [([2], 0)]), fresh := 2\<rparr>"
  let ?ca = "\<lambda>v::nat. Inr [of_nat v] :: error + NodeHash"
  define g where "g = fst (Assemble ?b ?h)"
  define h1 where "h1 = snd (Assemble ?b ?h)"
  have as: "Assemble ?b ?h = (g, h1)" by (simp only: g_def h1_def prod.collapse)
  have al: "builder_allocated ?b ?h" by (simp add: builder_eval)
  have wf: "builder_wf ?h ?b" by (simp add: builder_eval builder_wf_def wf_map_def)
  have c0: "builder_contents ?h ?b = ([[2], [1]], [([2], 2), ([1], 1)], [([2], [[1]])])"
    by (simp add: builder_eval builder_contents_def)
  have "case mutate_all ?ca 100 [CallRoots [7], CallConnect 2 7] (?b, h1) of
          Return (b', h2) \<Rightarrow>
            builder_contents h2 b'
              = ([[7]], [([2], 2), ([1], 1), ([7], 7)], [([2], [[1], [7]])])
        | Panic p \<Rightarrow> False"
    unfolding h1_def
    by (simp add: builder_eval builder_contents_def Builder_Connect_def index_slice_def
        append_slice_def)
  then obtain b' h2
    where run: "mutate_all ?ca 100 [CallRoots [7], CallConnect 2 7] (?b, h1) = Return (b', h2)"
      and r: "builder_contents h2 b'
                = ([[7]], [([2], 2), ([1], 1), ([7], 7)], [([2], [[1], [7]])])"
    by (auto split: outcome.splits)
  note copy = Assemble_is_a_copy[OF al as run]
  from copy[THEN conjunct1] wf
  have c1: "AssemblyGraph_contents h1 g = builder_contents ?h ?b" by blast
  from copy[THEN conjunct2]
  have c2: "AssemblyGraph_contents h2 g = AssemblyGraph_contents h1 g" .
  from al wf as run c0 r c1 c2 show ?thesis unfolding Let_def by blast
qed
section \<open>The component id of a single tainted node\<close>

text \<open>
  For a taint that parses to a node value with content address \<open>x\<close>, \<^verbatim>\<open>componentID\<close>
  is the digest of \<open>x\<close>: the id of the assembly with that node as its only root.
\<close>

lemma componentID_single_root:
  assumes "ParseNode taint = Inr v" and "ca v = Inr x"
  shows "componentID H ParseNode ca taint = Return (Inr (H x))"
  using assms
  by (simp add: componentID_def builder_eval zero_builder_def heap_eval sort_Slice_def
      AssemblyGraph_AssemblyID_def Roots_loop.simps)

lemma componentID_parse_error:
  "ParseNode taint = Inl err \<Longrightarrow>
     componentID H ParseNode ca taint = Return (Inl (Wrapped ''parse taint'' err))"
  by (simp add: componentID_def)

section \<open>Properties of reflective content addressing\<close>

lemma sort_key_stable_unique:
  assumes "mset xs = mset ys" and "distinct (map f xs)"
  shows "sort_key f xs = sort_key f ys"
proof -
  have a: "map f (sort_key f xs) = sort (map f xs)"
    by (rule properties_for_sort[symmetric]) simp_all
  have "mset (map f ys) = mset (map f xs)" using assms(1) by simp
  then have b: "map f (sort_key f ys) = sort (map f xs)"
    by (intro properties_for_sort[symmetric]) simp_all
  have "set ys = set xs" using assms(1) by (metis mset_eq_setD)
  then have inj: "inj_on f (set (sort_key f xs) \<union> set (sort_key f ys))"
    using assms(2) by (simp add: distinct_map)
  show ?thesis
    using inj_on_map_eq_map[OF inj] a b by simp
qed



lemma fill_nil_fields [simp]:
  "fname (fill_nil f) = fname f" "exported (fill_nil f) = exported f"
  "is_marker (fill_nil f) = is_marker f"
  by (induction f rule: fill_nil.induct) simp_all

lemma fill_nil_method [simp]: "method_of (fvalue (fill_nil f)) = method_of (fvalue f)"
  by (induction f rule: fill_nil.induct) simp_all





lemmas ca_eval = ContentAddress_def newNodeHash_def New_def Write_def Sum_def emit_plain_def
  emit_elements_def PutVarint_def bytes_of_def Let_def

text \<open>
  Claim C6.  The reflective content-addresser visits the fields of a struct sorted by
  name.  Hence two payloads of the same package path and type name whose visible fields
  (names pairwise distinct, as \<^verbatim>\<open>reflect.VisibleFields\<close> gives them) are the same
  fields with the same values in a different declaration order have the same result:
  the same NodeHash, or the same error.
\<close>

theorem reflective_field_order:
  assumes "distinct (map fname fs)" and "mset fs' = mset fs"
  shows "ContentAddress H \<lparr>PkgPath = p, Name = n, reflected = VStruct fs'\<rparr>
           = ContentAddress H \<lparr>PkgPath = p, Name = n, reflected = VStruct fs\<rparr>
       \<and> reflectiveContentAddress d (VStruct fs') = emit_fields d (sort_key fname fs)
       \<and> sorted (map fname (sort_key fname fs))"
proof -
  have "sort_key fname fs' = sort_key fname fs"
    using assms by (intro sort_key_stable_unique[symmetric]) simp_all
  then show ?thesis
    by (simp add: ContentAddress_def newNodeHash_def)
qed

theorem reflective_field_order_witness:
  "\<forall>H. distinct (map fname [Field ''A'' True False (VInt 5), Field ''B'' True False (VString ''x'')])
     \<and> mset [Field ''B'' True False (VString ''x''), Field ''A'' True False (VInt 5)]
         = mset [Field ''A'' True False (VInt 5), Field ''B'' True False (VString ''x'')]
     \<and> ContentAddress H \<lparr>PkgPath = ''pkg'', Name = ''T'', reflected =
           VStruct [Field ''B'' True False (VString ''x''), Field ''A'' True False (VInt 5)]\<rparr>
         = ContentAddress H \<lparr>PkgPath = ''pkg'', Name = ''T'', reflected =
           VStruct [Field ''A'' True False (VInt 5), Field ''B'' True False (VString ''x'')]\<rparr>
     \<and> ContentAddress H \<lparr>PkgPath = ''pkg'', Name = ''T'', reflected =
           VStruct [Field ''A'' True False (VInt 5), Field ''B'' True False (VString ''x'')]\<rparr>
         = Return (Inr (H (bytes_of ''pkgTA'' @ [10] @ bytes_of ''Bx'')))"
proof
  fix H :: digest
  let ?fs = "[Field ''A'' True False (VInt 5), Field ''B'' True False (VString ''x'')]"
  let ?fs' = "[Field ''B'' True False (VString ''x''), Field ''A'' True False (VInt 5)]"
  have d: "distinct (map fname ?fs)" by simp
  have m: "mset ?fs' = mset ?fs" by simp
  have v: "ContentAddress H \<lparr>PkgPath = ''pkg'', Name = ''T'', reflected = VStruct ?fs\<rparr>
         = Return (Inr (H (bytes_of ''pkgTA'' @ [10] @ bytes_of ''Bx'')))"
    by (simp add: ca_eval)
  from reflective_field_order[OF d m, of H "''pkg''" "''T''" "[]", THEN conjunct1] d m v
  show "distinct (map fname ?fs) \<and> mset ?fs' = mset ?fs
     \<and> ContentAddress H \<lparr>PkgPath = ''pkg'', Name = ''T'', reflected = VStruct ?fs'\<rparr>
         = ContentAddress H \<lparr>PkgPath = ''pkg'', Name = ''T'', reflected = VStruct ?fs\<rparr>
     \<and> ContentAddress H \<lparr>PkgPath = ''pkg'', Name = ''T'', reflected = VStruct ?fs\<rparr>
         = Return (Inr (H (bytes_of ''pkgTA'' @ [10] @ bytes_of ''Bx'')))"
    by blast
qed




end
